theory Spec2Isabelle
  imports Complex_Main "HOL-Library.Word" "HOL-Library.AList"
begin

section \<open>JavaScript strings and the random source\<close>

text \<open>
  A JavaScript string is a sequence of UTF-16 code units, and \<open>length\<close> counts code units.
  Task identifiers and status values are ASCII and are kept as \<open>string\<close>; the texts that come
  from a request (cookies, messages, conversation ids) are \<open>jsstr\<close>.
\<close>

type_synonym jsstr = "16 word list"

definition js :: "string \<Rightarrow> jsstr" where
  "js s = map (\<lambda>c. of_nat (of_char c)) s"

text \<open>The characters matched by \<open>\s\<close> and removed by \<open>String.prototype.trim\<close>.\<close>

definition is_ws :: "16 word \<Rightarrow> bool" where
  "is_ws c = (let n = unat c in
     (9 \<le> n \<and> n \<le> 13) \<or> n = 32 \<or> n = 160 \<or> n = 5760 \<or> (8192 \<le> n \<and> n \<le> 8202) \<or>
     n = 8232 \<or> n = 8233 \<or> n = 8239 \<or> n = 8287 \<or> n = 12288 \<or> n = 65279)"

definition trim :: "jsstr \<Rightarrow> jsstr" where
  "trim s = rev (dropWhile is_ws (rev (dropWhile is_ws s)))"

text \<open>
  \<open>s.split(/\s+/)\<close>: the pieces between maximal runs of whitespace. A run at the start or at
  the end of \<open>s\<close> leaves an empty piece there, and the empty string gives one empty piece.
  The flag says that the previous character was whitespace; \<open>cur\<close> is the piece being read,
  reversed.
\<close>

fun split_ws_from :: "bool \<Rightarrow> jsstr \<Rightarrow> jsstr \<Rightarrow> jsstr list" where
  "split_ws_from in_ws cur [] = [rev cur]"
| "split_ws_from in_ws cur (c # cs) =
     (if is_ws c
      then (if in_ws then split_ws_from True cur cs else rev cur # split_ws_from True [] cs)
      else split_ws_from False (c # cur) cs)"

definition split_ws :: "jsstr \<Rightarrow> jsstr list" where
  "split_ws s = split_ws_from False [] s"

text \<open>\<open>xs.join(sep)\<close>\<close>

fun join :: "'a list \<Rightarrow> 'a list list \<Rightarrow> 'a list" where
  "join sep [] = []"
| "join sep [w] = w"
| "join sep (w # ws) = w @ sep @ join sep ws"

text \<open>\<open>s.split(c)\<close> for a one-character separator.\<close>

fun split_on_from :: "'a \<Rightarrow> 'a list \<Rightarrow> 'a list \<Rightarrow> 'a list list" where
  "split_on_from sep cur [] = [rev cur]"
| "split_on_from sep cur (c # cs) =
     (if c = sep then rev cur # split_on_from sep [] cs else split_on_from sep (c # cur) cs)"

definition split_on :: "'a \<Rightarrow> 'a list \<Rightarrow> 'a list list" where
  "split_on sep s = split_on_from sep [] s"

text \<open>
  \<open>Math.random()\<close>: the calls of one run are numbered, and \<open>rnd k\<close> determines the value of
  call number \<open>k\<close>. Its fractional part is taken, so that every draw lies in \<open>[0, 1)\<close> and
  every number of that interval can be drawn. Functions that draw take the number of the
  next call and return the number after their last one. Arithmetic on draws is exact.
\<close>

type_synonym rng = "nat \<Rightarrow> real"

definition random :: "rng \<Rightarrow> nat \<Rightarrow> real" where
  "random rnd k = frac (rnd k)"

section \<open>Message enhancement\<close>

definition EMOJI_RANGES :: "(int \<times> int) list" where
  "EMOJI_RANGES =
     [(0x1F600, 0x1F64F), (0x1F300, 0x1F5FF), (0x1F680, 0x1F6FF), (0x1F1E6, 0x1F1FF),
      (0x2600, 0x26FF), (0x2700, 0x27BF), (0x1F900, 0x1F9FF), (0x1FA70, 0x1FAFF),
      (0x1F400, 0x1F4FF), (0x1F500, 0x1F5FF)]"

text \<open>\<open>String.fromCodePoint\<close>: one code unit up to U+FFFF, a surrogate pair above.\<close>

definition fromCodePoint :: "int \<Rightarrow> jsstr" where
  "fromCodePoint cp =
     (if cp < 0x10000 then [of_int cp]
      else [of_int (0xD800 + (cp - 0x10000) div 0x400), of_int (0xDC00 + (cp - 0x10000) mod 0x400)])"

definition getRandomEmoji :: "rng \<Rightarrow> nat \<Rightarrow> jsstr \<times> nat" where
  "getRandomEmoji rnd k =
     (let range = EMOJI_RANGES ! nat \<lfloor>random rnd k * of_nat (length EMOJI_RANGES)\<rfloor>;
          codePoint = \<lfloor>random rnd (k + 1) * of_int (snd range - fst range + 1)\<rfloor> + fst range
      in (fromCodePoint codePoint, k + 2))"

text \<open>
  The loop over \<open>words\<close> of \<open>enhanceMessage\<close>. \<open>Math.random() < 0.25\<close> is evaluated for every
  word, before \<open>i < words.length - 1\<close>, which holds when words remain after this one.
\<close>

fun enhance_words :: "rng \<Rightarrow> nat \<Rightarrow> jsstr list \<Rightarrow> jsstr list \<times> nat" where
  "enhance_words rnd k [] = ([], k)"
| "enhance_words rnd k (w # ws) =
     (if random rnd k < 25 / 100 \<and> ws \<noteq> []
      then (let (e, k1) = getRandomEmoji rnd (k + 1);
                (rest, k2) = enhance_words rnd k1 ws
            in (w # e # rest, k2))
      else (let (rest, k2) = enhance_words rnd (k + 1) ws in (w # rest, k2)))"

definition maybe_emoji :: "rng \<Rightarrow> nat \<Rightarrow> jsstr list \<times> nat" where
  "maybe_emoji rnd k =
     (if random rnd k < 4 / 10
      then (let (e, k1) = getRandomEmoji rnd (k + 1) in ([e], k1))
      else ([], k + 1))"

definition enhanceMessage :: "rng \<Rightarrow> nat \<Rightarrow> jsstr \<Rightarrow> jsstr \<times> nat" where
  "enhanceMessage rnd k message =
     (if message = [] \<or> trim message = [] then (message, k)
      else (let words = split_ws (trim message);
                (at_start, k1) = maybe_emoji rnd k;
                (between, k2) = enhance_words rnd k1 words;
                (at_end, k3) = maybe_emoji rnd k2
            in (join (js '' '') (at_start @ between @ at_end), k3)))"


section \<open>Tasks, logs and the state of the server\<close>

text \<open>
  The model follows the first program of \<open>src/server.js\<close> (lines 1 to 831), the variant with
  the admission queue. Numbers that the program only counts with are \<open>int\<close>.
\<close>

definition MAX_CONCURRENT_TASKS :: int where
  "MAX_CONCURRENT_TASKS = 40"

definition MAX_TASKS_PER_USER :: nat where
  "MAX_TASKS_PER_USER = 10"

record cookie =
  name :: jsstr
  cookie_value :: jsstr
  domain :: jsstr
  path :: jsstr
  secure :: bool
  httpOnly :: bool

text \<open>
  The task object built by the handler of \<open>/api/start-task\<close>. \<open>startTime\<close> is the time of
  creation in milliseconds; \<open>status\<close> is the JavaScript string.
\<close>

record task =
  task_id :: string
  status :: string
  progress :: int
  total :: int
  completed :: int
  success :: int
  failed :: int
  startTime :: int
  cookies :: "cookie list"
  messages :: "jsstr list"
  conversations :: "jsstr list"
  batch_count :: int
  batch_delay :: int
  time_delay :: int
  isStopped :: bool
  user_id :: jsstr

text \<open>
  A log line is the upper-case type and the message; the time stamp that \<open>addLog\<close> puts in
  front is left out. Each template of the program is one constructor.
\<close>

datatype logtext =
    TaskCreatedAndQueued
  | CookiesCount nat
  | MessagesCount nat
  | ConversationsCount nat
  | TotalOperations int
  | TaskStoppedByUser
  | TaskStoppedViaStopAll
  | TaskStartedProcessing
  | BatchOf int int
  | WaitingForNextBatch int
  | TaskCompleted int int
  | TaskStopped
  | TaskError
  | LaunchingBrowserFor jsstr
  | DeliveryText jsstr

type_synonym logentry = "string \<times> logtext"

text \<open>
  Where \<open>processTask\<close> stands inside its three nested loops. The \<open>for ... of\<close> loops are given
  by what is left to iterate: \<open>AtConv b cs\<close> is the head of the loop over the conversations
  with \<open>cs\<close> still to visit, \<open>AtMsg b c cs ms\<close> the head of the loop over the messages for
  conversation \<open>c\<close>, and \<open>AfterConvs b\<close> the statement after the loop over the conversations.
\<close>

datatype loc =
    AtBatch int
  | AtConv int "jsstr list"
  | AtMsg int jsstr "jsstr list" "jsstr list"
  | AfterConvs int

text \<open>The three \<open>await\<close> expressions at which a running \<open>processTask\<close> is suspended.\<close>

datatype pc =
    AwaitSend int jsstr "jsstr list" "jsstr list"
  | AwaitTimeDelay int jsstr "jsstr list" "jsstr list"
  | AwaitBatchDelay int

text \<open>
  Task objects are shared between the map \<open>tasks\<close> and the suspended calls of \<open>processTask\<close>,
  which keep the object they fetched when they started. So the objects live in a store
  (\<open>heap\<close>, with \<open>nextRef\<close> the next free reference), and the JavaScript \<open>Map\<close>s are association
  lists in insertion order from the key to the reference. \<open>procs r\<close> is the call of
  \<open>processTask\<close> on object \<open>r\<close> that is suspended at an \<open>await\<close>, with its argument
  \<open>taskId\<close>; a call that is resumed leaves \<open>procs\<close> until it suspends again. \<open>sent\<close> records every call
  of \<open>sendFacebookMessage\<close>: the task object and the three arguments \<open>task.cookies\<close>, the
  conversation and the enhanced message.
  \<open>rngPos\<close> is the number of the next call of \<open>Math.random\<close>.
\<close>

record state =
  heap :: "nat \<Rightarrow> task"
  nextRef :: nat
  tasks :: "(string \<times> nat) list"
  logs :: "(string \<times> logentry list) list"
  taskQueue :: "string list"
  activeTasks :: int
  procs :: "nat \<Rightarrow> (string \<times> pc) option"
  sent :: "(nat \<times> cookie list \<times> jsstr \<times> jsstr) list"
  rngPos :: nat

definition no_task :: task where
  "no_task = \<lparr>task_id = [], status = [], progress = 0, total = 0, completed = 0, success = 0,
     failed = 0, startTime = 0, cookies = [], messages = [], conversations = [],
     batch_count = 0, batch_delay = 0, time_delay = 0, isStopped = False, user_id = []\<rparr>"

definition init :: state where
  "init = \<lparr>heap = (\<lambda>r. no_task), nextRef = 0, tasks = [], logs = [], taskQueue = [],
     activeTasks = 0, procs = (\<lambda>r. None), sent = [], rngPos = 0\<rparr>"

section \<open>Utility functions\<close>

fun digits :: "nat \<Rightarrow> string" where
  "digits n = (if n < 10 then [''0123456789'' ! n]
               else digits (n div 10) @ [''0123456789'' ! (n mod 10)])"

definition generateTaskId :: "rng \<Rightarrow> nat \<Rightarrow> string \<times> nat" where
  "generateTaskId rnd k =
     (let randomNum = \<lfloor>1000 + random rnd k * 9000\<rfloor>
      in (''h4rsh_'' @ digits (nat randomNum), k + 1))"

definition addLog :: "string \<Rightarrow> logtext \<Rightarrow> string \<Rightarrow> state \<Rightarrow> state" where
  "addLog taskId message type s =
     (let taskLogs = (case map_of (logs s) taskId of None \<Rightarrow> [] | Some l \<Rightarrow> l) @ [(type, message)];
          taskLogs = (if length taskLogs > 500 then tl taskLogs else taskLogs)
      in s\<lparr>logs := AList.update taskId taskLogs (logs s)\<rparr>)"

definition starts_with :: "jsstr \<Rightarrow> jsstr \<Rightarrow> bool" where
  "starts_with p s = (take (length p) s = p)"

definition parse_cookie_line :: "jsstr \<Rightarrow> cookie option" where
  "parse_cookie_line line =
     (let trimmed = trim line in
      if trimmed = [] \<or> starts_with (js ''#'') trimmed \<or> starts_with (js ''//'') trimmed then None
      else if 0x3D \<in> set trimmed then
        (case split_on 0x3D trimmed of
           [] \<Rightarrow> None
         | name_part # valueParts \<Rightarrow>
             (let value_part = join (js ''='') valueParts in
              if trim name_part \<noteq> [] \<and> trim value_part \<noteq> [] then
                Some \<lparr>name = trim name_part,
                      cookie_value = trim (case split_on 0x3B value_part of [] \<Rightarrow> [] | v # _ \<Rightarrow> v),
                      domain = js ''.facebook.com'', path = js ''/'', secure = True,
                      httpOnly = (trim name_part \<in> set [js ''c_user'', js ''xs'', js ''fr'', js ''datr''])\<rparr>
              else None))
      else None)"

fun remove_duplicates :: "jsstr list \<Rightarrow> cookie list \<Rightarrow> cookie list" where
  "remove_duplicates seen [] = []"
| "remove_duplicates seen (c # cs) =
     (if name c \<in> set seen then remove_duplicates seen cs
      else c # remove_duplicates (name c # seen) cs)"

definition parseCookies :: "jsstr \<Rightarrow> cookie list" where
  "parseCookies cookieString =
     (if cookieString = [] \<or> trim cookieString = [] then []
      else remove_duplicates [] (List.map_filter parse_cookie_line (split_on 0x0A cookieString)))"

text \<open>\<open>text.split('\n').map(x => x.trim()).filter(x => x.length > 0)\<close>\<close>

definition nonempty_lines :: "jsstr \<Rightarrow> jsstr list" where
  "nonempty_lines text = filter (\<lambda>m. length m > 0) (map trim (split_on 0x0A text))"

section \<open>The task processor\<close>

text \<open>
  \<open>run\<close> executes \<open>processTask\<close> from a place in its loops up to the next \<open>await\<close>, or to the
  end of the loops (\<open>None\<close>). Nothing else runs in between, so the fields of the task object
  that the loops read are the same at every test; \<open>t\<close> is the object. The call of
  \<open>sendFacebookMessage\<close> is recorded in \<open>sent\<close>, and its first statement, a call of
  \<open>addLog\<close>, is executed before it suspends.
\<close>

function run :: "rng \<Rightarrow> task \<Rightarrow> string \<Rightarrow> nat \<Rightarrow> loc \<Rightarrow> state \<Rightarrow> state \<times> pc option" where
  "run rnd t taskId r (AtBatch batch) s =
     (if batch < batch_count t then
        (if isStopped t then (s, None)
         else run rnd t taskId r (AtConv batch (conversations t))
                (addLog taskId (BatchOf (batch + 1) (batch_count t)) ''INFO'' s))
      else (s, None))"
| "run rnd t taskId r (AtConv batch []) s = run rnd t taskId r (AfterConvs batch) s"
| "run rnd t taskId r (AtConv batch (conversation # cs)) s =
     (if isStopped t then run rnd t taskId r (AfterConvs batch) s
      else run rnd t taskId r (AtMsg batch conversation cs (messages t)) s)"
| "run rnd t taskId r (AtMsg batch conversation cs []) s = run rnd t taskId r (AtConv batch cs) s"
| "run rnd t taskId r (AtMsg batch conversation cs (message # ms)) s =
     (if isStopped t then run rnd t taskId r (AtConv batch cs) s
      else (let (enhancedMessage, k) = enhanceMessage rnd (rngPos s) message;
                s1 = s\<lparr>rngPos := k, sent := sent s @ [(r, cookies t, conversation, enhancedMessage)]\<rparr>;
                s2 = addLog taskId (LaunchingBrowserFor conversation) ''INFO'' s1
            in (s2, Some (AwaitSend batch conversation cs ms))))"
| "run rnd t taskId r (AfterConvs batch) s =
     (if batch < batch_count t - 1 \<and> \<not> isStopped t
      then (addLog taskId (WaitingForNextBatch (batch_delay t)) ''INFO'' s, Some (AwaitBatchDelay batch))
      else run rnd t taskId r (AtBatch (batch + 1)) s)"
  by pat_completeness auto

text \<open>The batch of a place, and a rank that orders the places within one batch.\<close>

fun loc_batches_left :: "task \<Rightarrow> loc \<Rightarrow> nat" where
  "loc_batches_left t (AtBatch b) = 2 * nat (batch_count t - b)"
| "loc_batches_left t (AtConv b cs) = 2 * nat (batch_count t - b) - 1"
| "loc_batches_left t (AtMsg b c cs ms) = 2 * nat (batch_count t - b) - 1"
| "loc_batches_left t (AfterConvs b) = 2 * nat (batch_count t - b) - 1"

fun loc_rank :: "loc \<Rightarrow> nat" where
  "loc_rank (AtBatch b) = 0"
| "loc_rank (AtConv b cs) = 2 * length cs + 3"
| "loc_rank (AtMsg b c cs ms) = 2 * length cs + 4"
| "loc_rank (AfterConvs b) = 1"

termination run
  by (relation "measures [\<lambda>(rnd, t, taskId, r, l, s). loc_batches_left t l,
                           \<lambda>(rnd, t, taskId, r, l, s). loc_rank l]") auto


text \<open>
  The \<open>finally\<close> block of \<open>processTask\<close>, up to its last statement, the call of
  \<open>processTaskQueue\<close>.
\<close>

definition finally_block :: "nat \<Rightarrow> string \<Rightarrow> state \<Rightarrow> state" where
  "finally_block r taskId s =
     s\<lparr>activeTasks := activeTasks s - 1, tasks := AList.update taskId r (tasks s)\<rparr>"

text \<open>The statements after the loops, under the comment \<open>Finalize\<close>.\<close>

definition finalize :: "nat \<Rightarrow> string \<Rightarrow> state \<Rightarrow> state" where
  "finalize r taskId s =
     (let t = heap s r in
      if \<not> isStopped t
      then addLog taskId (TaskCompleted (success t) (failed t)) ''SUCCESS''
             (s\<lparr>heap := (heap s)(r := t\<lparr>status := ''completed''\<rparr>)\<rparr>)
      else addLog taskId TaskStopped ''WARNING''
             (s\<lparr>heap := (heap s)(r := t\<lparr>status := ''stopped''\<rparr>)\<rparr>))"

text \<open>The \<open>catch\<close> block of \<open>processTask\<close>.\<close>

definition catch_block :: "nat \<Rightarrow> string \<Rightarrow> state \<Rightarrow> state" where
  "catch_block r taskId s =
     addLog taskId TaskError ''ERROR'' (s\<lparr>heap := (heap s)(r := (heap s r)\<lparr>status := ''error''\<rparr>)\<rparr>)"

text \<open>
  \<open>continue\<close> runs \<open>processTask\<close> on from a place. It either suspends at an \<open>await\<close>; or the
  loops end, and the statements after them and the \<open>finally\<close> block are executed. The flag
  says that this happened and that the call \<open>processTaskQueue()\<close>, which ends the \<open>finally\<close>
  block, is now due.
\<close>

definition continue :: "rng \<Rightarrow> nat \<Rightarrow> string \<Rightarrow> loc \<Rightarrow> state \<Rightarrow> state \<times> bool" where
  "continue rnd r taskId l s =
     (case run rnd (heap s r) taskId r l s of
        (s1, Some p) \<Rightarrow> (s1\<lparr>procs := (procs s1)(r \<mapsto> (taskId, p))\<rparr>, False)
      | (s1, None) \<Rightarrow> (finally_block r taskId (finalize r taskId s1), True))"

definition processTask :: "rng \<Rightarrow> string \<Rightarrow> state \<Rightarrow> state \<times> bool" where
  "processTask rnd taskId s =
     (case map_of (tasks s) taskId of
        None \<Rightarrow> (s, False)
      | Some r \<Rightarrow>
          (let s1 = s\<lparr>heap := (heap s)(r := (heap s r)\<lparr>status := ''running''\<rparr>),
                      activeTasks := activeTasks s + 1,
                      tasks := AList.update taskId r (tasks s)\<rparr>;
               s2 = addLog taskId TaskStartedProcessing ''INFO'' s1
           in continue rnd r taskId (AtBatch 0) s2))"

section \<open>The task queue processor\<close>

text \<open>
  \<open>processTaskQueue\<close> has no \<open>await\<close>: it runs to its end when called. \<open>processTask\<close> runs
  inside it up to its first \<open>await\<close>. Should \<open>processTask\<close> come to its end without
  suspending, its \<open>finally\<close> block calls \<open>processTaskQueue\<close> from within the loop; when that
  call returns the loop goes on.
\<close>

function processTaskQueue :: "rng \<Rightarrow> state \<Rightarrow> state" where
  "processTaskQueue rnd s =
     (if activeTasks s < MAX_CONCURRENT_TASKS \<and> length (taskQueue s) > 0 then
        (let taskId = hd (taskQueue s);
             s1 = s\<lparr>taskQueue := tl (taskQueue s)\<rparr>
         in case map_of (tasks s1) taskId of
              None \<Rightarrow> processTaskQueue rnd s1
            | Some r \<Rightarrow>
                if status (heap s1 r) = ''queued'' \<and> \<not> isStopped (heap s1 r)
                then (case processTask rnd taskId s1 of
                        (s2, False) \<Rightarrow> processTaskQueue rnd s2
                      | (s2, True) \<Rightarrow> processTaskQueue rnd (processTaskQueue rnd s2))
                else processTaskQueue rnd s1)
      else s)"
  by pat_completeness auto

text \<open>The call \<open>processTaskQueue()\<close> that ends the \<open>finally\<close> block, when it is due.\<close>

definition then_queue :: "rng \<Rightarrow> state \<times> bool \<Rightarrow> state" where
  "then_queue rnd x = (case x of (s, True) \<Rightarrow> processTaskQueue rnd s | (s, False) \<Rightarrow> s)"

section \<open>The request handlers\<close>

text \<open>
  The body of a request to \<open>/api/start-task\<close>. An absent text field is the empty string,
  which the handler rejects like the absent one. The three numbers are given by what
  \<open>parseInt\<close> makes of them, \<open>None\<close> for \<open>NaN\<close>; \<open>user_id\<close> is given with its default applied.
\<close>

record start_request =
  req_cookies :: jsstr
  req_messages :: jsstr
  req_conversation_id :: jsstr
  req_batch_count :: "int option"
  req_batch_delay :: "int option"
  req_time_delay :: "int option"
  req_user_id :: jsstr

text \<open>The task as the handler of \<open>/api/task/:taskId\<close> shows it.\<close>

record task_view =
  view_id :: string
  view_status :: string
  view_progress :: int
  view_total :: int
  view_completed :: int
  view_success :: int
  view_failed :: int
  view_startTime :: int
  view_isStopped :: bool
  view_user_id :: jsstr

text \<open>
  The responses: \<open>Failure\<close> carries the HTTP status and the error text, every other
  response has \<open>success: true\<close>. \<open>Started\<close> carries \<open>taskId\<close>, \<open>totalOperations\<close>,
  \<open>batchCount\<close>, \<open>batchDelay\<close>, \<open>timeDelay\<close> and \<open>positionInQueue\<close>.
\<close>

datatype response =
    Started string int int int int nat
  | Failure nat string
  | TaskFound task_view
  | LogLines "logentry list"
  | StoppedOne string
  | StoppedMany nat

text \<open>\<open>parseInt(x) || d\<close>: the default replaces \<open>NaN\<close> and \<open>0\<close>.\<close>

definition parsed_or :: "int option \<Rightarrow> int \<Rightarrow> int" where
  "parsed_or x d = (case x of None \<Rightarrow> d | Some n \<Rightarrow> if n = 0 then d else n)"

text \<open>
  \<open>POST /api/start-task\<close>, at time \<open>now\<close>, in three parts. \<open>new_task\<close> is the task object
  made from the parsed lists (the clamped numbers, \<open>totalOperations\<close> and the object
  literal). \<open>enqueue_task\<close> stores it under a fresh reference and is the rest of the
  handler up to the call of \<open>processTaskQueue\<close>. \<open>start_task\<close> is the handler with its
  checks. \<open>generateTaskId\<close> is called before the parsed lists are checked, so a request
  rejected there has still drawn a number.
\<close>

definition new_task :: "string \<Rightarrow> int \<Rightarrow> start_request \<Rightarrow> task" where
  "new_task taskId now req =
     (let parsedCookies = parseCookies (req_cookies req);
          messageList = nonempty_lines (req_messages req);
          conversationList = nonempty_lines (req_conversation_id req);
          batchCount = min (max 1 (parsed_or (req_batch_count req) 1)) 100;
          batchDelay = min (max 1 (parsed_or (req_batch_delay req) 5)) 300;
          timeDelay = min (max 1 (parsed_or (req_time_delay req) 10)) 600;
          totalOperations = batchCount * int (length messageList) * int (length conversationList)
      in \<lparr>task_id = taskId, status = ''queued'', progress = 0, total = totalOperations,
           completed = 0, success = 0, failed = 0, startTime = now, cookies = parsedCookies,
           messages = messageList, conversations = conversationList, batch_count = batchCount,
           batch_delay = batchDelay, time_delay = timeDelay, isStopped = False,
           user_id = req_user_id req\<rparr>)"

definition enqueue_task :: "rng \<Rightarrow> string \<Rightarrow> task \<Rightarrow> state \<Rightarrow> state" where
  "enqueue_task rnd taskId task s =
     (let r = nextRef s;
          s1 = s\<lparr>heap := (heap s)(r := task), nextRef := r + 1,
                 tasks := AList.update taskId r (tasks s),
                 logs := AList.update taskId [] (logs s)\<rparr>;
          s2 = addLog taskId TaskCreatedAndQueued ''INFO'' s1;
          s3 = addLog taskId (CookiesCount (length (cookies task))) ''INFO'' s2;
          s4 = addLog taskId (MessagesCount (length (messages task))) ''INFO'' s3;
          s5 = addLog taskId (ConversationsCount (length (conversations task))) ''INFO'' s4;
          s6 = addLog taskId (TotalOperations (total task)) ''INFO'' s5;
          s7 = s6\<lparr>taskQueue := taskQueue s6 @ [taskId]\<rparr>
      in processTaskQueue rnd s7)"

definition start_task :: "rng \<Rightarrow> int \<Rightarrow> start_request \<Rightarrow> state \<Rightarrow> state \<times> response" where
  "start_task rnd now req s =
     (if req_cookies req = [] \<or> trim (req_cookies req) = [] then
        (s, Failure 400 ''Cookies are required'')
      else if req_messages req = [] \<or> trim (req_messages req) = [] then
        (s, Failure 400 ''Messages are required'')
      else if req_conversation_id req = [] \<or> trim (req_conversation_id req) = [] then
        (s, Failure 400 ''Conversation ID is required'')
      else if length (filter
                (\<lambda>(k, r). user_id (heap s r) = req_user_id req \<and> status (heap s r) = ''running'')
                (tasks s)) \<ge> MAX_TASKS_PER_USER then
        (s, Failure 429 ''Maximum 10 tasks per user allowed'')
      else
        (let (taskId, k) = generateTaskId rnd (rngPos s);
             s0 = s\<lparr>rngPos := k\<rparr>;
             task = new_task taskId now req
         in if length (cookies task) = 0 then
              (s0, Failure 400 ''No valid cookies found. Format: name=value'')
            else if length (messages task) = 0 then
              (s0, Failure 400 ''No valid messages found'')
            else if length (conversations task) = 0 then
              (s0, Failure 400 ''No valid conversation IDs found'')
            else
              (let s8 = enqueue_task rnd taskId task s0
               in (s8, Started taskId (total task) (batch_count task) (batch_delay task)
                         (time_delay task) (length (taskQueue s8))))))"

text \<open>\<open>GET /api/task/:taskId\<close>\<close>

definition get_task :: "string \<Rightarrow> state \<Rightarrow> response" where
  "get_task taskId s =
     (case map_of (tasks s) taskId of
        None \<Rightarrow> Failure 404 ''Task not found''
      | Some r \<Rightarrow>
          (let task = heap s r in
           TaskFound \<lparr>view_id = task_id task, view_status = status task,
                      view_progress = progress task, view_total = total task,
                      view_completed = completed task, view_success = success task,
                      view_failed = failed task, view_startTime = startTime task,
                      view_isStopped = isStopped task, view_user_id = user_id task\<rparr>))"

text \<open>\<open>GET /api/logs/:taskId\<close>; \<open>slice(-100)\<close> keeps the last hundred lines.\<close>

definition get_logs :: "string \<Rightarrow> state \<Rightarrow> response" where
  "get_logs taskId s =
     (let taskLogs = (case map_of (logs s) taskId of None \<Rightarrow> [] | Some l \<Rightarrow> l)
      in LogLines (drop (length taskLogs - 100) taskLogs))"

text \<open>The number \<open>runningTasks\<close> that \<open>/api/status\<close> and \<open>/api/all-tasks\<close> report.\<close>

definition runningTasks :: "state \<Rightarrow> nat" where
  "runningTasks s = length (filter (\<lambda>(k, r). status (heap s r) = ''running'') (tasks s))"

text \<open>\<open>POST /api/stop-task/:taskId\<close>; \<open>indexOf\<close> and \<open>splice\<close> remove the first occurrence.\<close>

definition stop_task :: "string \<Rightarrow> state \<Rightarrow> state \<times> response" where
  "stop_task taskId s =
     (case map_of (tasks s) taskId of
        None \<Rightarrow> (s, Failure 404 ''Task not found'')
      | Some r \<Rightarrow>
          (let s1 = s\<lparr>heap := (heap s)(r := (heap s r)\<lparr>isStopped := True, status := ''stopped''\<rparr>),
                      tasks := AList.update taskId r (tasks s)\<rparr>;
               s2 = s1\<lparr>taskQueue := remove1 taskId (taskQueue s1)\<rparr>;
               s3 = addLog taskId TaskStoppedByUser ''WARNING'' s2
           in (s3, StoppedOne taskId)))"

text \<open>\<open>POST /api/stop-all-tasks\<close>: the body of the loop over \<open>tasks.entries()\<close>, then the rest.\<close>

definition stop_all_entry :: "string \<times> nat \<Rightarrow> state \<times> nat \<Rightarrow> state \<times> nat" where
  "stop_all_entry e x =
     (case (e, x) of ((taskId, r), (s, stoppedCount)) \<Rightarrow>
        if status (heap s r) = ''running'' \<or> status (heap s r) = ''queued'' then
          (addLog taskId TaskStoppedViaStopAll ''WARNING''
             (s\<lparr>heap := (heap s)(r := (heap s r)\<lparr>isStopped := True, status := ''stopped''\<rparr>),
                tasks := AList.update taskId r (tasks s)\<rparr>),
           stoppedCount + 1)
        else (s, stoppedCount))"

definition stop_all_tasks :: "state \<Rightarrow> state \<times> response" where
  "stop_all_tasks s =
     (let (s1, stoppedCount) = fold stop_all_entry (tasks s) (s, 0)
      in (s1\<lparr>taskQueue := [], activeTasks := 0\<rparr>, StoppedMany stoppedCount))"

text \<open>The periodic cleanup, run at time \<open>now\<close>.\<close>

definition cleanup_entry :: "int \<Rightarrow> string \<times> nat \<Rightarrow> state \<Rightarrow> state" where
  "cleanup_entry cutoffTime e s =
     (case e of (taskId, r) \<Rightarrow>
        if startTime (heap s r) < cutoffTime \<and> status (heap s r) \<noteq> ''running''
        then s\<lparr>tasks := AList.delete taskId (tasks s), logs := AList.delete taskId (logs s)\<rparr>
        else s)"

definition cleanup :: "int \<Rightarrow> state \<Rightarrow> state" where
  "cleanup now s = fold (cleanup_entry (now - 24 * 60 * 60 * 1000)) (tasks s) s"

section \<open>Resuming a suspended task\<close>

text \<open>
  How the awaited call of \<open>sendFacebookMessage\<close> ends: it returns \<open>true\<close> or \<open>false\<close>, or its
  promise is rejected. The function catches its own errors and returns \<open>false\<close>; only an
  error raised inside its \<open>catch\<close> block would reject the promise.
\<close>

datatype outcome = Returned bool | Threw

text \<open>
  \<open>Math.round((completed / total) * 100)\<close>, computed exactly. For \<open>total = 0\<close> JavaScript
  gives \<open>NaN\<close> or \<open>Infinity\<close>, here the result is 0; no task is created with \<open>total = 0\<close>.
\<close>

definition percent :: "int \<Rightarrow> int \<Rightarrow> int" where
  "percent c n = \<lfloor>(of_int c / of_int n) * 100 + (1 / 2 :: real)\<rfloor>"

text \<open>
  The statements of the innermost loop after the \<open>await\<close>, up to \<open>tasks.set\<close>: what they do
  to the task object, and to the state.
\<close>

definition count_task :: "bool \<Rightarrow> task \<Rightarrow> task" where
  "count_task ok t =
     (let t1 = t\<lparr>completed := completed t + 1\<rparr>;
          t2 = t1\<lparr>progress := percent (completed t1) (total t1)\<rparr>
      in if ok then t2\<lparr>success := success t2 + 1\<rparr> else t2\<lparr>failed := failed t2 + 1\<rparr>)"

definition count_result :: "nat \<Rightarrow> string \<Rightarrow> bool \<Rightarrow> state \<Rightarrow> state" where
  "count_result r taskId ok s =
     s\<lparr>heap := (heap s)(r := count_task ok (heap s r)), tasks := AList.update taskId r (tasks s)\<rparr>"

text \<open>A suspended call is resumed.\<close>

definition resume :: "nat \<Rightarrow> state \<Rightarrow> state" where
  "resume r s = s\<lparr>procs := (procs s)(r := None)\<rparr>"

text \<open>The call of \<open>sendFacebookMessage\<close> awaited by the task object \<open>r\<close> settles.\<close>

definition send_settled :: "rng \<Rightarrow> nat \<Rightarrow> outcome \<Rightarrow> state \<Rightarrow> state" where
  "send_settled rnd r out s =
     (case procs s r of
        Some (taskId, AwaitSend batch conversation cs ms) \<Rightarrow>
          (case out of
             Threw \<Rightarrow>
               processTaskQueue rnd (finally_block r taskId (catch_block r taskId (resume r s)))
           | Returned ok \<Rightarrow>
               (let s1 = count_result r taskId ok (resume r s) in
                if completed (heap s1 r) < total (heap s1 r) \<and> \<not> isStopped (heap s1 r)
                then s1\<lparr>procs := (procs s1)(r \<mapsto> (taskId, AwaitTimeDelay batch conversation cs ms))\<rparr>
                else then_queue rnd (continue rnd r taskId (AtMsg batch conversation cs ms) s1)))
      | _ \<Rightarrow> s)"

text \<open>The timer awaited by the task object \<open>r\<close> fires.\<close>

definition timer_fired :: "rng \<Rightarrow> nat \<Rightarrow> state \<Rightarrow> state" where
  "timer_fired rnd r s =
     (case procs s r of
        Some (taskId, AwaitTimeDelay batch conversation cs ms) \<Rightarrow>
          then_queue rnd (continue rnd r taskId (AtMsg batch conversation cs ms) (resume r s))
      | Some (taskId, AwaitBatchDelay batch) \<Rightarrow>
          then_queue rnd (continue rnd r taskId (AtBatch (batch + 1)) (resume r s))
      | _ \<Rightarrow> s)"

text \<open>A call of \<open>addLog\<close> made by \<open>sendFacebookMessage\<close> while the task object \<open>r\<close> awaits it.\<close>

definition delivery_log :: "nat \<Rightarrow> jsstr \<Rightarrow> string \<Rightarrow> state \<Rightarrow> state" where
  "delivery_log r text type s =
     (case procs s r of
        Some (taskId, AwaitSend batch conversation cs ms) \<Rightarrow> addLog taskId (DeliveryText text) type s
      | _ \<Rightarrow> s)"

section \<open>Runs of the server\<close>

text \<open>
  JavaScript runs one handler or one resumed task at a time, each up to its end or its next
  \<open>await\<close>. A run of the server is a sequence of such events.
\<close>

datatype event =
    StartTask int start_request
  | StopTask string
  | StopAllTasks
  | SendSettled nat outcome
  | TimerFired nat
  | DeliveryLog nat jsstr string
  | Cleanup int

fun step :: "rng \<Rightarrow> event \<Rightarrow> state \<Rightarrow> state" where
  "step rnd (StartTask now req) s = fst (start_task rnd now req s)"
| "step rnd (StopTask taskId) s = fst (stop_task taskId s)"
| "step rnd StopAllTasks s = fst (stop_all_tasks s)"
| "step rnd (SendSettled r out) s = send_settled rnd r out s"
| "step rnd (TimerFired r) s = timer_fired rnd r s"
| "step rnd (DeliveryLog r text type) s = delivery_log r text type s"
| "step rnd (Cleanup now) s = cleanup now s"

definition run_events :: "rng \<Rightarrow> event list \<Rightarrow> state \<Rightarrow> state" where
  "run_events rnd es s = fold (step rnd) es s"

section \<open>Measures and invariants\<close>

text \<open>
  The number of operations that the loops of \<open>processTask\<close> still run from a place, and from
  an \<open>await\<close>, when the task is not stopped. The send that is awaited counts.
\<close>

definition ops_per_batch :: "task \<Rightarrow> int" where
  "ops_per_batch t = int (length (conversations t)) * int (length (messages t))"

fun ops_left_at :: "task \<Rightarrow> loc \<Rightarrow> int" where
  "ops_left_at t (AtBatch b) = (batch_count t - b) * ops_per_batch t"
| "ops_left_at t (AtConv b cs) =
     int (length cs) * int (length (messages t)) + (batch_count t - 1 - b) * ops_per_batch t"
| "ops_left_at t (AtMsg b c cs ms) =
     int (length ms) + int (length cs) * int (length (messages t))
       + (batch_count t - 1 - b) * ops_per_batch t"
| "ops_left_at t (AfterConvs b) = (batch_count t - 1 - b) * ops_per_batch t"

fun ops_left :: "task \<Rightarrow> pc \<Rightarrow> int" where
  "ops_left t (AwaitSend b c cs ms) = 1 + ops_left_at t (AtMsg b c cs ms)"
| "ops_left t (AwaitTimeDelay b c cs ms) = ops_left_at t (AtMsg b c cs ms)"
| "ops_left t (AwaitBatchDelay b) = ops_left_at t (AfterConvs b)"

fun loc_batch :: "loc \<Rightarrow> int" where
  "loc_batch (AtBatch b) = b"
| "loc_batch (AtConv b cs) = b"
| "loc_batch (AtMsg b c cs ms) = b"
| "loc_batch (AfterConvs b) = b"

fun loc_ok :: "task \<Rightarrow> loc \<Rightarrow> bool" where
  "loc_ok t (AtBatch b) = (0 \<le> b \<and> b \<le> batch_count t)"
| "loc_ok t (AtConv b cs) = (0 \<le> b \<and> b < batch_count t)"
| "loc_ok t (AtMsg b c cs ms) = (0 \<le> b \<and> b < batch_count t)"
| "loc_ok t (AfterConvs b) = (0 \<le> b \<and> b < batch_count t)"

fun pc_batch :: "pc \<Rightarrow> int" where
  "pc_batch (AwaitSend b c cs ms) = b"
| "pc_batch (AwaitTimeDelay b c cs ms) = b"
| "pc_batch (AwaitBatchDelay b) = b"

text \<open>
  What holds of a task object \<open>t\<close> whose call of \<open>processTask\<close> is \<open>p\<close>, at every point of a
  run of the server.
\<close>

definition task_inv :: "task \<Rightarrow> (string \<times> pc) option \<Rightarrow> bool" where
  "task_inv t p =
     (completed t = success t + failed t \<and> 0 \<le> success t \<and> 0 \<le> failed t \<and>
      1 \<le> batch_count t \<and>
      total t = batch_count t * int (length (messages t)) * int (length (conversations t)) \<and>
      status t \<in> {''queued'', ''running'', ''completed'', ''stopped'', ''error''} \<and>
      (status t = ''queued'' \<longrightarrow> \<not> isStopped t \<and> p = None \<and> completed t = 0) \<and>
      (case p of
         None \<Rightarrow> completed t \<le> total t
       | Some (taskId, q) \<Rightarrow>
           0 \<le> pc_batch q \<and> pc_batch q < batch_count t \<and>
           completed t + ops_left t q \<le> total t \<and>
           (\<not> isStopped t \<longrightarrow> completed t + ops_left t q = total t)))"

definition server_inv :: "state \<Rightarrow> bool" where
  "server_inv s =
     ((\<forall>r. procs s r \<noteq> None \<longrightarrow> r < nextRef s) \<and>
      (\<forall>e \<in> set (tasks s). snd e < nextRef s) \<and>
      (\<forall>e \<in> set (sent s). fst e < nextRef s) \<and>
      (\<forall>r < nextRef s. task_inv (heap s r) (procs s r) \<and>
          (status (heap s r) = ''queued'' \<longrightarrow> r \<notin> fst ` set (sent s))))"

text \<open>
  How a task object may differ between an earlier and a later point of a run: the counters
  do not decrease, a stop request is not taken back, a terminal status is not left, and
  the other fields, but for \<open>status\<close> and \<open>progress\<close>, are the same.
\<close>

definition terminal :: "string \<Rightarrow> bool" where
  "terminal st = (st = ''completed'' \<or> st = ''stopped'' \<or> st = ''error'')"

definition task_le :: "task \<Rightarrow> task \<Rightarrow> bool" where
  "task_le t t' =
     (task_id t' = task_id t \<and> total t' = total t \<and> startTime t' = startTime t \<and>
      cookies t' = cookies t \<and> messages t' = messages t \<and>
      conversations t' = conversations t \<and> batch_count t' = batch_count t \<and>
      batch_delay t' = batch_delay t \<and> time_delay t' = time_delay t \<and> user_id t' = user_id t \<and>
      completed t \<le> completed t' \<and> success t \<le> success t' \<and> failed t \<le> failed t' \<and>
      (isStopped t \<longrightarrow> isStopped t') \<and> (terminal (status t) \<longrightarrow> terminal (status t')))"

text \<open>
  A task object is frozen when it has been stopped and no call of \<open>processTask\<close> is
  suspended on it. \<open>acts_on r\<close> relates two states between which only the task object \<open>r\<close>
  and its call of \<open>processTask\<close> were touched. \<open>evolves\<close> relates an earlier state of a run
  to a later one: task objects are kept and change as \<open>task_le\<close> allows, and a frozen
  object stays as it is, without a call of \<open>processTask\<close> and without a further send.
  \<open>senders s\<close> are the task objects for which \<open>sendFacebookMessage\<close> has been called.
\<close>

definition senders :: "state \<Rightarrow> nat set" where
  "senders s = fst ` set (sent s)"

definition frozen :: "state \<Rightarrow> nat \<Rightarrow> bool" where
  "frozen s r = (isStopped (heap s r) \<and> status (heap s r) = ''stopped'' \<and> procs s r = None)"

definition acts_on :: "nat \<Rightarrow> state \<Rightarrow> state \<Rightarrow> bool" where
  "acts_on r s s' =
     (nextRef s' = nextRef s \<and>
      (\<forall>r'. r' \<noteq> r \<longrightarrow> heap s' r' = heap s r' \<and> procs s' r' = procs s r') \<and>
      senders s' \<subseteq> insert r (senders s) \<and>
      task_le (heap s r) (heap s' r))"

definition evolves :: "state \<Rightarrow> state \<Rightarrow> bool" where
  "evolves s s' =
     (nextRef s \<le> nextRef s' \<and>
      (\<forall>r < nextRef s. task_le (heap s r) (heap s' r) \<and>
         (frozen s r \<longrightarrow> heap s' r = heap s r \<and> procs s' r = None \<and>
            (r \<in> senders s' \<longrightarrow> r \<in> senders s))))"

section \<open>A task whose sends all fail\<close>

text \<open>
  \<open>send_count s r\<close> is the number of calls of \<open>sendFacebookMessage\<close> made for the task object
  \<open>r\<close>, and \<open>pending_send\<close> is 1 for a call of \<open>processTask\<close> that waits for such a call to
  settle.
\<close>

fun pending_send :: "pc option \<Rightarrow> nat" where
  "pending_send (Some (AwaitSend b c cs ms)) = 1"
| "pending_send _ = 0"

definition send_count :: "state \<Rightarrow> nat \<Rightarrow> nat" where
  "send_count s r = length (filter (\<lambda>x. fst x = r) (sent s))"





section \<open>Example inputs\<close>

text \<open>
  A request with one cookie, one message and one conversation, a request with two cookies,
  two messages, two conversations and three batches, and the states of the server after
  each of them.
\<close>

definition request_one :: start_request where
  "request_one = \<lparr>req_cookies = js ''a=b'', req_messages = js ''m'',
     req_conversation_id = js ''c'', req_batch_count = None, req_batch_delay = None,
     req_time_delay = None, req_user_id = js ''u''\<rparr>"


text \<open>A source of draws that are all \<open>0.5\<close>: no emoji is ever inserted.\<close>

definition draws_half :: rng where
  "draws_half = (\<lambda>k. 1 / 2)"

definition one_running :: state where
  "one_running = run_events draws_half [StartTask 0 request_one] init"

definition one_completed :: state where
  "one_completed =
     run_events draws_half [StartTask 0 request_one, SendSettled 0 (Returned True)] init"


text \<open>
  A run that brings more tasks to the status running than \<open>MAX_CONCURRENT_TASKS\<close>. The draws
  rise slowly from \<open>0.5\<close>, so that no emoji is inserted and the identifiers drawn differ:
  request number \<open>j\<close> of the run gets the identifier \<open>rising_id j\<close>. Every request comes from
  another user. In \<open>overload\<close> one task is started and stopped by \<open>/api/stop-all-tasks\<close>, its
  send settles, and 41 more requests follow. \<open>admitted k s\<close> describes the state after \<open>k\<close> of
  them.
\<close>

definition draws_rising :: rng where
  "draws_rising k = 1 / 2 + real k / 18000"

definition request_of :: "nat \<Rightarrow> start_request" where
  "request_of n = request_one\<lparr>req_user_id := replicate (Suc n) 0x75\<rparr>"

definition more_starts :: "nat \<Rightarrow> event list" where
  "more_starts n = map (\<lambda>j. StartTask 0 (request_of j)) [1..<Suc n]"

definition overload :: "event list" where
  "overload = [StartTask 0 (request_of 0), StopAllTasks, SendSettled 0 (Returned False)]
     @ more_starts 41"

definition rising_id :: "nat \<Rightarrow> string" where
  "rising_id j = ''h4rsh_'' @ digits (5500 + 2 * j)"

definition admitted :: "nat \<Rightarrow> state \<Rightarrow> bool" where
  "admitted k s =
     (nextRef s = Suc k \<and> taskQueue s = [] \<and> activeTasks s = int k - 1 \<and>
      rngPos s = 4 * Suc k \<and> tasks s = map (\<lambda>j. (rising_id j, j)) [0..<Suc k] \<and>
      status (heap s 0) = ''stopped'' \<and>
      (\<forall>j\<le>k. user_id (heap s j) = replicate (Suc j) 0x75) \<and>
      (\<forall>j. 1 \<le> j \<and> j \<le> k \<longrightarrow> status (heap s j) = ''running''))"

text \<open>
  The state after one more request: 41 calls of \<open>processTask\<close> are running, \<open>activeTasks\<close> is
  40, and the task of the last request waits in the queue.
\<close>

definition one_waiting :: state where
  "one_waiting = run_events draws_rising (overload @ [StartTask 0 (request_of 42)]) init"

section \<open>Termination of the task queue processor\<close>

lemma addLog_fields [simp]:
  "heap (addLog taskId m ty s) = heap s"
  "nextRef (addLog taskId m ty s) = nextRef s"
  "tasks (addLog taskId m ty s) = tasks s"
  "taskQueue (addLog taskId m ty s) = taskQueue s"
  "activeTasks (addLog taskId m ty s) = activeTasks s"
  "procs (addLog taskId m ty s) = procs s"
  "sent (addLog taskId m ty s) = sent s"
  "rngPos (addLog taskId m ty s) = rngPos s"
  by (simp_all add: addLog_def Let_def)

lemma run_frame:
  "heap (fst (run rnd t taskId r l s)) = heap s \<and>
   nextRef (fst (run rnd t taskId r l s)) = nextRef s \<and>
   tasks (fst (run rnd t taskId r l s)) = tasks s \<and>
   taskQueue (fst (run rnd t taskId r l s)) = taskQueue s \<and>
   activeTasks (fst (run rnd t taskId r l s)) = activeTasks s \<and>
   procs (fst (run rnd t taskId r l s)) = procs s"
  by (induction rnd t taskId r l s rule: run.induct) (simp_all add: Let_def case_prod_beta)


lemma continue_taskQueue: "taskQueue (fst (continue rnd r taskId l s)) = taskQueue s"
proof (cases "run rnd (heap s r) taskId r l s")
  case (Pair s1 res)
  have "taskQueue s1 = taskQueue s"
    using run_frame [of rnd "heap s r" taskId r l s] Pair by simp
  then show ?thesis
    by (cases res) (simp_all add: continue_def Pair finally_block_def finalize_def Let_def)
qed

lemma processTask_taskQueue: "taskQueue (fst (processTask rnd taskId s)) = taskQueue s"
  by (simp add: processTask_def Let_def continue_taskQueue split: option.splits)

lemma processTaskQueue_dom_length:
  "processTaskQueue_dom (rnd, s) \<Longrightarrow>
     length (taskQueue (processTaskQueue rnd s)) \<le> length (taskQueue s)"
proof (induction rnd s rule: processTaskQueue.pinduct)
  case (1 rnd s)
  note unfold = processTaskQueue.psimps [OF "1.hyps"]
  show ?case
  proof (cases "activeTasks s < MAX_CONCURRENT_TASKS \<and> length (taskQueue s) > 0")
    case False
    then have "processTaskQueue rnd s = s"
      by (subst unfold) (simp only: if_False)
    then show ?thesis by simp
  next
    case True
    define taskId where "taskId = hd (taskQueue s)"
    define s1 where "s1 = s\<lparr>taskQueue := tl (taskQueue s)\<rparr>"
    have len1: "length (taskQueue s1) < length (taskQueue s)"
      using True by (simp add: s1_def)
    have eq: "processTaskQueue rnd s =
       (case map_of (tasks s1) taskId of
              None \<Rightarrow> processTaskQueue rnd s1
            | Some r \<Rightarrow>
                if status (heap s1 r) = ''queued'' \<and> \<not> isStopped (heap s1 r)
                then (case processTask rnd taskId s1 of
                        (s2, False) \<Rightarrow> processTaskQueue rnd s2
                      | (s2, True) \<Rightarrow> processTaskQueue rnd (processTaskQueue rnd s2))
                else processTaskQueue rnd s1)"
      by (subst unfold) (simp only: True if_True Let_def taskId_def s1_def simp_thms)
    show ?thesis
    proof (cases "map_of (tasks s1) taskId")
      case None
      have "length (taskQueue (processTaskQueue rnd s1)) \<le> length (taskQueue s1)"
        using "1.IH"(1) [OF True taskId_def s1_def None] .
      then show ?thesis using len1 by (simp add: eq None)
    next
      case (Some r)
      show ?thesis
      proof (cases "status (heap s1 r) = ''queued'' \<and> \<not> isStopped (heap s1 r)")
        case False
        have "length (taskQueue (processTaskQueue rnd s1)) \<le> length (taskQueue s1)"
          using "1.IH"(5) [OF True taskId_def s1_def Some False] .
        then show ?thesis using len1 unfolding eq Some option.case if_not_P [OF False] by simp
      next
        case runnable: True
        obtain s2 b where pt: "processTask rnd taskId s1 = (s2, b)" by (cases "processTask rnd taskId s1")
        have q2: "taskQueue s2 = taskQueue s1"
          using processTask_taskQueue [of rnd taskId s1] pt by simp
        show ?thesis
        proof (cases b)
          case False
          then have bF: "b = False" by simp
          have "length (taskQueue (processTaskQueue rnd s2)) \<le> length (taskQueue s2)"
            using "1.IH"(4) [OF True taskId_def s1_def Some runnable pt [symmetric] bF] .
          then show ?thesis using len1 q2 unfolding eq Some option.case if_P [OF runnable] pt bF prod.case bool.case by simp
        next
          case True2: True
          then have bT: "b = True" by simp
          have a: "length (taskQueue (processTaskQueue rnd s2)) \<le> length (taskQueue s2)"
            using "1.IH"(2) [OF True taskId_def s1_def Some runnable pt [symmetric] bT] .
          have b: "length (taskQueue (processTaskQueue rnd (processTaskQueue rnd s2)))
                \<le> length (taskQueue (processTaskQueue rnd s2))"
            using "1.IH"(3) [OF True taskId_def s1_def Some runnable pt [symmetric] bT] .
          show ?thesis using a b len1 q2 unfolding eq Some option.case if_P [OF runnable] pt bT prod.case bool.case by simp
        qed
      qed
    qed
  qed
qed




lemma processTask_taskQueue_eq:
  "(s2, b) = processTask rnd taskId s \<Longrightarrow> taskQueue s2 = taskQueue s"
  using processTask_taskQueue [of rnd taskId s] by (cases "processTask rnd taskId s") simp

termination processTaskQueue
proof (relation "measure (\<lambda>(rnd, s). length (taskQueue s))", goal_cases)
  case 1
  show ?case by simp
next
  case 2
  then show ?case by simp
next
  case 3
  then show ?case by (auto dest!: processTask_taskQueue_eq)
next
  case 4
  then show ?case by (auto dest!: processTask_taskQueue_eq processTaskQueue_dom_length simp: neq_Nil_conv)
next
  case 5
  then show ?case by (auto dest!: processTask_taskQueue_eq)
next
  case 6
  then show ?case by simp
qed

section \<open>Properties of message enhancement\<close>

lemma length_join:
  "length (join sep ws) = sum_list (map length ws) + (length ws - 1) * length sep"
  by (induction sep ws rule: join.induct) simp_all

lemma enhance_words_grows:
  "sum_list (map length ws) \<le> sum_list (map length (fst (enhance_words rnd k ws))) \<and>
   length ws \<le> length (fst (enhance_words rnd k ws))"
proof (induction ws arbitrary: k)
  case Nil
  show ?case by simp
next
  case (Cons w ws)
  show ?case
    using Cons.IH [of "snd (getRandomEmoji rnd (k + 1))"] Cons.IH [of "k + 1"]
    by (simp add: case_prod_beta Let_def)
qed

lemma length_join_mono:
  assumes "sum_list (map length ws) \<le> sum_list (map length vs)" and "length ws \<le> length vs"
  shows "length (join sep ws) \<le> length (join sep vs)"
proof -
  have "length ws - 1 \<le> length vs - 1"
    using assms(2) by arith
  then have "(length ws - 1) * length sep \<le> (length vs - 1) * length sep"
    by (rule mult_le_mono1)
  with assms(1) show ?thesis
    unfolding length_join by (rule add_mono)
qed

text \<open>
  C8 (as amended). \<open>enhanceMessage\<close> returns an empty or all-whitespace message unchanged.
  For any other message the result is at least as long as the message after trimming and
  after replacing every run of whitespace by one space, whatever the random draws are.
\<close>

theorem enhanceMessage_length:
  "(trim message = [] \<longrightarrow> fst (enhanceMessage rnd k message) = message) \<and>
   (trim message \<noteq> [] \<longrightarrow>
      length (join (js '' '') (split_ws (trim message))) \<le> length (fst (enhanceMessage rnd k message)))"
proof (intro conjI impI)
  assume "trim message = []"
  then show "fst (enhanceMessage rnd k message) = message"
    by (simp add: enhanceMessage_def)
next
  assume ne: "trim message \<noteq> []"
  then have m: "message \<noteq> []" by (auto simp: trim_def)
  define ws where "ws = split_ws (trim message)"
  obtain a k1 where a: "maybe_emoji rnd k = (a, k1)" by force
  obtain b k2 where b: "enhance_words rnd k1 ws = (b, k2)" by force
  obtain c k3 where c: "maybe_emoji rnd k2 = (c, k3)" by force
  have res: "fst (enhanceMessage rnd k message) = join (js '' '') (a @ b @ c)"
    using ne m a b c by (simp add: enhanceMessage_def ws_def)
  have "sum_list (map length ws) \<le> sum_list (map length b) \<and> length ws \<le> length b"
    using enhance_words_grows [of ws rnd k1] b by simp
  then have "length (join (js '' '') ws) \<le> length (join (js '' '') (a @ b @ c))"
    by (intro length_join_mono) auto
  then show "length (join (js '' '') (split_ws (trim message))) \<le> length (fst (enhanceMessage rnd k message))"
    by (simp add: res ws_def)
qed

theorem enhanceMessage_length_witness:
  "trim (js ''a  b'') \<noteq> [] \<and>
   length (join (js '' '') (split_ws (trim (js ''a  b''))))
     \<le> length (fst (enhanceMessage draws_half 0 (js ''a  b'')))"
  using enhanceMessage_length [of "js ''a  b''" draws_half 0]
  by (simp add: js_def trim_def is_ws_def)

text \<open>
  C8 as stated fails: the message \<open>a  b\<close>, with two spaces between the words, comes back as
  \<open>a b\<close> when no emoji is drawn, one code unit shorter.
\<close>

theorem enhanceMessage_shorter:
  "length (fst (enhanceMessage draws_half 0 (js ''a  b''))) < length (js ''a  b'')"
  by (simp add: enhanceMessage_def js_def trim_def is_ws_def split_ws_def maybe_emoji_def
      random_def frac_def draws_half_def)

section \<open>The invariant of the server\<close>

lemma run_sent:
  "fst ` set (sent (fst (run rnd t taskId r l s))) \<subseteq> insert r (fst ` set (sent s))"
  by (induction rnd t taskId r l s rule: run.induct) (auto simp: Let_def case_prod_beta)

lemma run_stopped:
  "isStopped t \<Longrightarrow> snd (run rnd t taskId r l s) = None \<and> sent (fst (run rnd t taskId r l s)) = sent s"
  by (induction rnd t taskId r l s rule: run.induct) (simp_all add: Let_def case_prod_beta)

lemma ops_left_at_nonneg: "loc_ok t l \<Longrightarrow> 0 \<le> ops_left_at t l"
  by (cases l) (simp_all add: ops_per_batch_def)

lemma run_ops:
  "loc_ok t l \<Longrightarrow>
   (case snd (run rnd t taskId r l s) of
      None \<Rightarrow> \<not> isStopped t \<longrightarrow> ops_left_at t l = 0
    | Some q \<Rightarrow> \<not> isStopped t \<and> loc_batch l \<le> pc_batch q \<and> pc_batch q < batch_count t \<and>
        ops_left t q = ops_left_at t l)"
  by (induction rnd t taskId r l s rule: run.induct)
     (auto simp: ops_per_batch_def algebra_simps Let_def case_prod_beta split: option.splits)


declare processTaskQueue.simps [simp del]

lemma processTaskQueue_unfold:
  assumes "activeTasks s < MAX_CONCURRENT_TASKS \<and> length (taskQueue s) > 0"
  shows "processTaskQueue rnd s =
     (case map_of (tasks s) (hd (taskQueue s)) of
        None \<Rightarrow> processTaskQueue rnd (s\<lparr>taskQueue := tl (taskQueue s)\<rparr>)
      | Some r \<Rightarrow>
          if status (heap s r) = ''queued'' \<and> \<not> isStopped (heap s r)
          then (case processTask rnd (hd (taskQueue s)) (s\<lparr>taskQueue := tl (taskQueue s)\<rparr>) of
                  (s2, False) \<Rightarrow> processTaskQueue rnd s2
                | (s2, True) \<Rightarrow> processTaskQueue rnd (processTaskQueue rnd s2))
          else processTaskQueue rnd (s\<lparr>taskQueue := tl (taskQueue s)\<rparr>))"
  by (subst processTaskQueue.simps, simp only: if_P [OF assms] Let_def)
     (simp cong: option.case_cong if_cong)

lemma processTaskQueue_idle:
  assumes "\<not> (activeTasks s < MAX_CONCURRENT_TASKS \<and> length (taskQueue s) > 0)"
  shows "processTaskQueue rnd s = s"
  by (subst processTaskQueue.simps, simp only: if_not_P [OF assms])

lemma processTaskQueue_preserves:
  assumes shift: "\<And>s. P s \<Longrightarrow> P (s\<lparr>taskQueue := tl (taskQueue s)\<rparr>)"
    and start: "\<And>rnd s taskId r. P s \<Longrightarrow> map_of (tasks s) taskId = Some r \<Longrightarrow>
        status (heap s r) = ''queued'' \<Longrightarrow> \<not> isStopped (heap s r) \<Longrightarrow>
        P (fst (processTask rnd taskId s))"
  shows "P s \<Longrightarrow> P (processTaskQueue rnd s)"
proof (induction rnd s rule: processTaskQueue.induct)
  case (1 rnd s)
  show ?case
  proof (cases "activeTasks s < MAX_CONCURRENT_TASKS \<and> length (taskQueue s) > 0")
    case False
    show ?thesis using "1.prems" unfolding processTaskQueue_idle [OF False] .
  next
    case True
    define taskId where "taskId = hd (taskQueue s)"
    define s1 where "s1 = s\<lparr>taskQueue := tl (taskQueue s)\<rparr>"
    have P1: "P s1" using shift [OF "1.prems"] by (simp add: s1_def)
    have eq: "processTaskQueue rnd s =
       (case map_of (tasks s1) taskId of
              None \<Rightarrow> processTaskQueue rnd s1
            | Some r \<Rightarrow>
                if status (heap s1 r) = ''queued'' \<and> \<not> isStopped (heap s1 r)
                then (case processTask rnd taskId s1 of
                        (s2, False) \<Rightarrow> processTaskQueue rnd s2
                      | (s2, True) \<Rightarrow> processTaskQueue rnd (processTaskQueue rnd s2))
                else processTaskQueue rnd s1)"
      by (subst processTaskQueue_unfold [OF True]) (simp add: taskId_def s1_def cong: option.case_cong if_cong)
    show ?thesis
    proof (cases "map_of (tasks s1) taskId")
      case None
      show ?thesis
        unfolding eq None option.case
        using "1.IH"(1) [OF True taskId_def s1_def None P1] .
    next
      case (Some r)
      show ?thesis
      proof (cases "status (heap s1 r) = ''queued'' \<and> \<not> isStopped (heap s1 r)")
        case False
        show ?thesis
          unfolding eq Some option.case if_not_P [OF False]
          using "1.IH"(5) [OF True taskId_def s1_def Some False P1] .
      next
        case runnable: True
        obtain s2 b where pt: "processTask rnd taskId s1 = (s2, b)"
          by (cases "processTask rnd taskId s1")
        have P2: "P s2"
          using start [OF P1 Some, of rnd] runnable by (simp add: pt)
        show ?thesis
        proof (cases b)
          case False
          then have bF: "b = False" by simp
          show ?thesis
            unfolding eq Some option.case if_P [OF runnable] pt bF prod.case bool.case
            using "1.IH"(4) [OF True taskId_def s1_def Some runnable pt [symmetric] bF P2] .
        next
          case True2: True
          then have bT: "b = True" by simp
          have a: "P (processTaskQueue rnd s2)"
            using "1.IH"(2) [OF True taskId_def s1_def Some runnable pt [symmetric] bT P2] .
          show ?thesis
            unfolding eq Some option.case if_P [OF runnable] pt bT prod.case bool.case
            using "1.IH"(3) [OF True taskId_def s1_def Some runnable pt [symmetric] bT a] .
        qed
      qed
    qed
  qed
qed


lemma update_refs_bound:
  "\<forall>e \<in> set al. snd e < (n::nat) \<Longrightarrow> r < n \<Longrightarrow> \<forall>e \<in> set (AList.update k r al). snd e < n"
  by (induction al) auto

lemma delete_refs_bound:
  "\<forall>e \<in> set al. snd e < (n::nat) \<Longrightarrow> \<forall>e \<in> set (AList.delete k al). snd e < n"
  by (induction al) auto

lemma map_of_ref_bound:
  "server_inv s \<Longrightarrow> map_of (tasks s) taskId = Some r \<Longrightarrow> r < nextRef s"
  by (auto simp: server_inv_def dest!: map_of_SomeD)

lemma inv_frame:
  assumes "server_inv s" and "heap s' = heap s" and "nextRef s' = nextRef s"
    and "\<forall>e \<in> set (tasks s'). snd e < nextRef s" and "procs s' = procs s"
    and "fst ` set (sent s') \<subseteq> fst ` set (sent s) \<union> {r. r < nextRef s \<and> status (heap s r) \<noteq> ''queued''}"
  shows "server_inv s'"
proof -
  have a: "\<forall>r. procs s' r \<noteq> None \<longrightarrow> r < nextRef s'"
    using assms(1,3,5) by (simp add: server_inv_def)
  have b: "\<forall>e \<in> set (tasks s'). snd e < nextRef s'"
    using assms(3,4) by simp
  have d: "\<forall>e \<in> set (sent s'). fst e < nextRef s'"
  proof
    fix e assume "e \<in> set (sent s')"
    then have "fst e \<in> fst ` set (sent s) \<union> {r. r < nextRef s \<and> status (heap s r) \<noteq> ''queued''}"
      using assms(6) by blast
    then show "fst e < nextRef s'"
      using assms(1,3) by (auto simp: server_inv_def)
  qed
  have c: "task_inv (heap s' r) (procs s' r) \<and>
           (status (heap s' r) = ''queued'' \<longrightarrow> r \<notin> fst ` set (sent s'))"
    if "r < nextRef s'" for r
  proof -
    have r: "r < nextRef s" using that assms(3) by simp
    have t: "task_inv (heap s r) (procs s r)"
      and q: "status (heap s r) = ''queued'' \<longrightarrow> r \<notin> fst ` set (sent s)"
      using assms(1) r by (simp_all add: server_inv_def)
    have "status (heap s r) = ''queued'' \<longrightarrow> r \<notin> fst ` set (sent s')"
      using q assms(6) by blast
    then show ?thesis using t assms(2,5) by simp
  qed
  show ?thesis unfolding server_inv_def using a b c d by blast
qed

lemma inv_addLog [simp]: "server_inv (addLog taskId m ty s) = server_inv s"
  by (simp add: server_inv_def)

lemma inv_taskQueue [simp]: "server_inv (s\<lparr>taskQueue := q\<rparr>) = server_inv s"
  by (simp add: server_inv_def)

lemma inv_activeTasks [simp]: "server_inv (s\<lparr>activeTasks := a\<rparr>) = server_inv s"
  by (simp add: server_inv_def)

lemma inv_rngPos [simp]: "server_inv (s\<lparr>rngPos := a\<rparr>) = server_inv s"
  by (simp add: server_inv_def)

lemma inv_logs [simp]: "server_inv (s\<lparr>logs := a\<rparr>) = server_inv s"
  by (simp add: server_inv_def)

lemma inv_tasks_update:
  "server_inv s \<Longrightarrow> r < nextRef s \<Longrightarrow> server_inv (s\<lparr>tasks := AList.update taskId r (tasks s)\<rparr>)"
  using update_refs_bound [of "tasks s" "nextRef s" r taskId] by (simp add: server_inv_def)

lemma inv_tasks_delete:
  "server_inv s \<Longrightarrow> server_inv (s\<lparr>tasks := AList.delete taskId (tasks s)\<rparr>)"
  using delete_refs_bound [of "tasks s" "nextRef s" taskId] by (simp add: server_inv_def)

lemma inv_heap_update:
  assumes "server_inv s" and "r < nextRef s" and "task_inv t (procs s r)"
    and "status t = ''queued'' \<longrightarrow> r \<notin> fst ` set (sent s)"
  shows "server_inv (s\<lparr>heap := (heap s)(r := t)\<rparr>)"
  using assms by (simp add: server_inv_def)

lemma inv_procs_update:
  assumes "server_inv s" and "r < nextRef s" and "task_inv (heap s r) p"
  shows "server_inv (s\<lparr>procs := (procs s)(r := p)\<rparr>)"
  using assms by (simp add: server_inv_def)

lemma inv_task: "server_inv s \<Longrightarrow> r < nextRef s \<Longrightarrow> task_inv (heap s r) (procs s r)"
  by (simp add: server_inv_def)

lemma task_inv_total_nonneg: "task_inv t p \<Longrightarrow> 0 \<le> total t"
  by (simp add: task_inv_def)


lemma ops_per_batch_update [simp]:
  "ops_per_batch (t\<lparr>status := st\<rparr>) = ops_per_batch t"
  "ops_per_batch (t\<lparr>isStopped := b\<rparr>) = ops_per_batch t"
  "ops_per_batch (t\<lparr>completed := n\<rparr>) = ops_per_batch t"
  "ops_per_batch (t\<lparr>progress := n\<rparr>) = ops_per_batch t"
  "ops_per_batch (t\<lparr>success := n\<rparr>) = ops_per_batch t"
  "ops_per_batch (t\<lparr>failed := n\<rparr>) = ops_per_batch t"
  by (simp_all add: ops_per_batch_def)

lemma ops_left_at_update [simp]:
  "ops_left_at (t\<lparr>status := st\<rparr>) l = ops_left_at t l"
  "ops_left_at (t\<lparr>isStopped := b\<rparr>) l = ops_left_at t l"
  "ops_left_at (t\<lparr>completed := n\<rparr>) l = ops_left_at t l"
  "ops_left_at (t\<lparr>progress := n\<rparr>) l = ops_left_at t l"
  "ops_left_at (t\<lparr>success := n\<rparr>) l = ops_left_at t l"
  "ops_left_at (t\<lparr>failed := n\<rparr>) l = ops_left_at t l"
  by (cases l, simp_all)+

lemma ops_left_update [simp]:
  "ops_left (t\<lparr>status := st\<rparr>) q = ops_left t q"
  "ops_left (t\<lparr>isStopped := b\<rparr>) q = ops_left t q"
  "ops_left (t\<lparr>completed := n\<rparr>) q = ops_left t q"
  "ops_left (t\<lparr>progress := n\<rparr>) q = ops_left t q"
  "ops_left (t\<lparr>success := n\<rparr>) q = ops_left t q"
  "ops_left (t\<lparr>failed := n\<rparr>) q = ops_left t q"
  by (cases q, simp_all)+

lemma ops_left_nonneg: "pc_batch q < batch_count t \<Longrightarrow> 0 \<le> ops_left t q"
  by (cases q) (simp_all add: ops_per_batch_def)

lemma task_inv_status:
  "task_inv t p \<Longrightarrow> st \<in> {''running'', ''completed'', ''stopped'', ''error''} \<Longrightarrow>
   task_inv (t\<lparr>status := st\<rparr>) p"
  by (auto simp: task_inv_def split: option.splits)

lemma task_inv_stop:
  "task_inv t p \<Longrightarrow> task_inv (t\<lparr>isStopped := True, status := ''stopped''\<rparr>) p"
  by (auto simp: task_inv_def split: option.splits)

lemma task_inv_Some:
  assumes "task_inv t None" and "status t \<noteq> ''queued''"
    and "0 \<le> pc_batch q" and "pc_batch q < batch_count t"
    and "completed t + ops_left t q \<le> total t"
    and "\<not> isStopped t \<longrightarrow> completed t + ops_left t q = total t"
  shows "task_inv t (Some (taskId, q))"
  using assms by (simp add: task_inv_def)

lemma task_inv_None:
  assumes "task_inv t (Some (taskId, q))"
  shows "task_inv t None"
proof -
  have "pc_batch q < batch_count t" using assms by (simp add: task_inv_def)
  then have "0 \<le> ops_left t q" by (rule ops_left_nonneg)
  then show ?thesis using assms by (auto simp: task_inv_def)
qed

lemma task_inv_not_queued: "task_inv t (Some x) \<Longrightarrow> status t \<noteq> ''queued''"
  by (auto simp: task_inv_def)

lemma inv_finally_block:
  "server_inv s \<Longrightarrow> r < nextRef s \<Longrightarrow> server_inv (finally_block r taskId s)"
  using update_refs_bound [of "tasks s" "nextRef s" r taskId]
  by (simp add: server_inv_def finally_block_def)

lemma run_inv:
  assumes "server_inv s" and "status (heap s r) \<noteq> ''queued''" and "r < nextRef s"
  shows "server_inv (fst (run rnd t taskId r l s))"
proof (rule inv_frame [OF assms(1)])
  show "\<forall>e \<in> set (tasks (fst (run rnd t taskId r l s))). snd e < nextRef s"
    using assms(1) by (simp add: run_frame server_inv_def)
  show "fst ` set (sent (fst (run rnd t taskId r l s)))
          \<subseteq> fst ` set (sent s) \<union> {r. r < nextRef s \<and> status (heap s r) \<noteq> ''queued''}"
    using run_sent [of rnd t taskId r l s] assms(2,3) by auto
qed (simp_all add: run_frame)

lemma continue_inv:
  assumes "server_inv s" and r: "r < nextRef s" and p: "procs s r = None"
    and st: "status (heap s r) \<noteq> ''queued''" and ok: "loc_ok (heap s r) l"
    and le: "completed (heap s r) + ops_left_at (heap s r) l \<le> total (heap s r)"
    and eq: "\<not> isStopped (heap s r) \<longrightarrow>
               completed (heap s r) + ops_left_at (heap s r) l = total (heap s r)"
  shows "server_inv (fst (continue rnd r taskId l s))"
proof -
  define t where "t = heap s r"
  obtain s1 res where run: "run rnd t taskId r l s = (s1, res)"
    by (cases "run rnd t taskId r l s")
  have inv1: "server_inv s1"
    using run_inv [OF assms(1) st r, of rnd t taskId l] run by simp
  have fr: "heap s1 = heap s" "nextRef s1 = nextRef s" "procs s1 = procs s"
    using run_frame [of rnd t taskId r l s] run by simp_all
  have t: "task_inv t None"
    using inv_task [OF assms(1) r] p by (simp add: t_def)
  show ?thesis
  proof (cases res)
    case None
    have c: "fst (continue rnd r taskId l s) = finally_block r taskId (finalize r taskId s1)"
      using run None by (simp add: continue_def t_def)
    have upd: "server_inv (s1\<lparr>heap := (heap s1)(r := (heap s1 r)\<lparr>status := st\<rparr>)\<rparr>)"
      if "st \<in> {''running'', ''completed'', ''stopped'', ''error''}" for st
    proof (rule inv_heap_update [OF inv1])
      show "task_inv ((heap s1 r)\<lparr>status := st\<rparr>) (procs s1 r)"
        using t that by (simp add: fr p t_def task_inv_status)
      show "status ((heap s1 r)\<lparr>status := st\<rparr>) = ''queued'' \<longrightarrow> r \<notin> fst ` set (sent s1)"
        using that by auto
    qed (simp add: fr r)
    have "server_inv (finalize r taskId s1)"
      unfolding finalize_def Let_def using upd by simp
    then show ?thesis
      unfolding c by (rule inv_finally_block) (simp add: finalize_def Let_def fr r)
  next
    case (Some q)
    have c: "fst (continue rnd r taskId l s) = s1\<lparr>procs := (procs s1)(r \<mapsto> (taskId, q))\<rparr>"
      using run Some by (simp add: continue_def t_def)
    have ops: "\<not> isStopped t \<and> loc_batch l \<le> pc_batch q \<and> pc_batch q < batch_count t \<and>
        ops_left t q = ops_left_at t l"
      using run_ops [of t l rnd taskId r s] ok run Some by (simp add: t_def)
    have "0 \<le> loc_batch l" using ok by (cases l) (simp_all add: t_def)
    then have nn: "0 \<le> pc_batch q" using ops by simp
    have "task_inv t (Some (taskId, q))"
      using t st ops nn le eq by (intro task_inv_Some) (simp_all add: t_def)
    then show ?thesis
      unfolding c using inv1 r by (intro inv_procs_update) (simp_all add: fr t_def)
  qed
qed


lemma inv_update:
  assumes "server_inv s" and "r < nextRef s" and "nextRef s' = nextRef s"
    and "\<forall>e \<in> set (tasks s'). snd e < nextRef s"
    and "heap s' = (heap s)(r := t')" and "procs s' = (procs s)(r := p')"
    and "sent s' = sent s" and "task_inv t' p'"
    and "status t' = ''queued'' \<longrightarrow> r \<notin> fst ` set (sent s)"
  shows "server_inv s'"
  using assms by (simp add: server_inv_def)

lemma tasks_update_bound:
  "server_inv s \<Longrightarrow> r < nextRef s \<Longrightarrow> \<forall>e \<in> set (AList.update taskId r (tasks s)). snd e < nextRef s"
  by (rule update_refs_bound) (simp_all add: server_inv_def)

lemma tasks_bound: "server_inv s \<Longrightarrow> \<forall>e \<in> set (tasks s). snd e < nextRef s"
  by (simp add: server_inv_def)

lemma processTask_inv:
  assumes "server_inv s" and m: "map_of (tasks s) taskId = Some r"
    and q: "status (heap s r) = ''queued''" and ns: "\<not> isStopped (heap s r)"
  shows "server_inv (fst (processTask rnd taskId s))"
proof -
  have r: "r < nextRef s" using assms(1) m by (rule map_of_ref_bound)
  have t: "task_inv (heap s r) (procs s r)" using assms(1) r by (rule inv_task)
  have p: "procs s r = None" and c: "completed (heap s r) = 0"
    using t q by (simp_all add: task_inv_def)
  have tot: "total (heap s r) =
      batch_count (heap s r) * int (length (messages (heap s r))) * int (length (conversations (heap s r)))"
    and bc: "1 \<le> batch_count (heap s r)"
    using t by (simp_all add: task_inv_def)
  define s2 where "s2 = addLog taskId TaskStartedProcessing ''INFO''
     (s\<lparr>heap := (heap s)(r := (heap s r)\<lparr>status := ''running''\<rparr>),
        activeTasks := activeTasks s + 1,
        tasks := AList.update taskId r (tasks s)\<rparr>)"
  have inv2: "server_inv s2"
  proof (rule inv_update [OF assms(1) r, where t' = "(heap s r)\<lparr>status := ''running''\<rparr>" and p' = None])
    show "task_inv ((heap s r)\<lparr>status := ''running''\<rparr>) None"
      using t p by (simp add: task_inv_status)
    show "\<forall>e \<in> set (tasks s2). snd e < nextRef s"
      using tasks_update_bound [OF assms(1) r] by (simp add: s2_def)
    show "procs s2 = (procs s)(r := None)" using p by (auto simp: s2_def)
  qed (simp_all add: s2_def)
  have pt: "processTask rnd taskId s = continue rnd r taskId (AtBatch 0) s2"
    using m by (simp add: processTask_def s2_def Let_def)
  show ?thesis
    unfolding pt
  proof (rule continue_inv [OF inv2])
    show "completed (heap s2 r) + ops_left_at (heap s2 r) (AtBatch 0) \<le> total (heap s2 r)"
      using c tot by (simp add: s2_def ops_per_batch_def)
    show "\<not> isStopped (heap s2 r) \<longrightarrow>
            completed (heap s2 r) + ops_left_at (heap s2 r) (AtBatch 0) = total (heap s2 r)"
      using c tot by (simp add: s2_def ops_per_batch_def)
    show "loc_ok (heap s2 r) (AtBatch 0)" using bc by (simp add: s2_def)
  qed (use r p in \<open>simp_all add: s2_def\<close>)
qed

lemma processTaskQueue_inv: "server_inv s \<Longrightarrow> server_inv (processTaskQueue rnd s)"
  by (rule processTaskQueue_preserves [where P = server_inv]) (simp_all add: processTask_inv)

lemma then_queue_inv: "server_inv (fst x) \<Longrightarrow> server_inv (then_queue rnd x)"
  by (cases x) (auto simp: then_queue_def processTaskQueue_inv split: bool.splits)

lemma new_task_inv: "task_inv (new_task taskId now req) None"
proof -
  have "0 \<le> min (max 1 (parsed_or (req_batch_count req) 1)) 100
           * int (length (nonempty_lines (req_messages req)))
           * int (length (nonempty_lines (req_conversation_id req)))"
    by (intro mult_nonneg_nonneg) simp_all
  then show ?thesis
    by (simp add: new_task_def Let_def task_inv_def)
qed

lemma new_task_fields [simp]:
  "status (new_task taskId now req) = ''queued''"
  "isStopped (new_task taskId now req) = False"
  "task_id (new_task taskId now req) = taskId"
  by (simp_all add: new_task_def Let_def)

lemma enqueue_task_inv:
  assumes "server_inv s" and "task_inv task None" and "status task = ''queued''"
  shows "server_inv (enqueue_task rnd taskId task s)"
proof -
  define s7 where "s7 = (addLog taskId (TotalOperations (total task)) ''INFO''
     (addLog taskId (ConversationsCount (length (conversations task))) ''INFO''
     (addLog taskId (MessagesCount (length (messages task))) ''INFO''
     (addLog taskId (CookiesCount (length (cookies task))) ''INFO''
     (addLog taskId TaskCreatedAndQueued ''INFO''
       (s\<lparr>heap := (heap s)(nextRef s := task), nextRef := nextRef s + 1,
          tasks := AList.update taskId (nextRef s) (tasks s),
          logs := AList.update taskId [] (logs s)\<rparr>))))))
     \<lparr>taskQueue := taskQueue s @ [taskId]\<rparr>"
  have eq: "enqueue_task rnd taskId task s = processTaskQueue rnd s7"
    by (simp add: enqueue_task_def Let_def s7_def)
  have f: "heap s7 = (heap s)(nextRef s := task)" "nextRef s7 = Suc (nextRef s)"
    "tasks s7 = AList.update taskId (nextRef s) (tasks s)" "procs s7 = procs s" "sent s7 = sent s"
    by (simp_all add: s7_def)
  have "\<not> nextRef s < nextRef s" by simp
  then have n1: "procs s (nextRef s) = None"
    using assms(1) unfolding server_inv_def by blast
  have n2: "nextRef s \<notin> fst ` set (sent s)"
    using assms(1) unfolding server_inv_def by force
  note n = n1 n2
  have b: "\<forall>e \<in> set (AList.update taskId (nextRef s) (tasks s)). snd e < Suc (nextRef s)"
    using assms(1) by (intro update_refs_bound) (auto simp: server_inv_def less_Suc_eq)
  have "server_inv s7"
    unfolding server_inv_def f
    using assms n b by (auto simp: server_inv_def less_Suc_eq)
  then show ?thesis
    unfolding eq by (rule processTaskQueue_inv)
qed

lemma start_task_inv: "server_inv s \<Longrightarrow> server_inv (fst (start_task rnd now req s))"
  by (simp add: start_task_def Let_def enqueue_task_inv new_task_inv split: prod.splits)


lemma stop_task_inv: "server_inv s \<Longrightarrow> server_inv (fst (stop_task taskId s))"
proof (cases "map_of (tasks s) taskId")
  case None
  assume "server_inv s"
  then show ?thesis using None by (simp add: stop_task_def)
next
  case (Some r)
  assume i: "server_inv s"
  have r: "r < nextRef s" using i Some by (rule map_of_ref_bound)
  show ?thesis
  proof (rule inv_update [OF i r, where t' = "(heap s r)\<lparr>isStopped := True, status := ''stopped''\<rparr>"
        and p' = "procs s r"])
    show "task_inv ((heap s r)\<lparr>isStopped := True, status := ''stopped''\<rparr>) (procs s r)"
      using inv_task [OF i r] by (rule task_inv_stop)
    show "\<forall>e \<in> set (tasks (fst (stop_task taskId s))). snd e < nextRef s"
      using tasks_update_bound [OF i r] Some by (simp add: stop_task_def Let_def)
  qed (simp_all add: stop_task_def Some Let_def)
qed

lemma stop_all_entry_inv:
  assumes "server_inv s" and "snd e < nextRef s"
  shows "server_inv (fst (stop_all_entry e (s, n))) \<and> nextRef (fst (stop_all_entry e (s, n))) = nextRef s"
proof (cases e)
  case (Pair taskId r)
  have r: "r < nextRef s" using assms(2) Pair by simp
  show ?thesis
  proof (cases "status (heap s r) = ''running'' \<or> status (heap s r) = ''queued''")
    case False
    then show ?thesis using assms(1) Pair by (simp add: stop_all_entry_def)
  next
    case True
    define s' where "s' = addLog taskId TaskStoppedViaStopAll ''WARNING''
        (s\<lparr>heap := (heap s)(r := (heap s r)\<lparr>isStopped := True, status := ''stopped''\<rparr>),
           tasks := AList.update taskId r (tasks s)\<rparr>)"
    have eq: "fst (stop_all_entry e (s, n)) = s'"
      using True Pair by (simp add: stop_all_entry_def s'_def)
    have "server_inv s'"
    proof (rule inv_update [OF assms(1) r, where t' = "(heap s r)\<lparr>isStopped := True, status := ''stopped''\<rparr>"
        and p' = "procs s r"])
      show "task_inv ((heap s r)\<lparr>isStopped := True, status := ''stopped''\<rparr>) (procs s r)"
        using inv_task [OF assms(1) r] by (rule task_inv_stop)
      show "\<forall>e \<in> set (tasks s'). snd e < nextRef s"
        using tasks_update_bound [OF assms(1) r] by (simp add: s'_def)
    qed (simp_all add: s'_def)
    then show ?thesis unfolding eq by (simp add: s'_def)
  qed
qed

lemma fold_stop_all_entry_inv:
  "server_inv s \<Longrightarrow> \<forall>e \<in> set es. snd e < nextRef s \<Longrightarrow>
   server_inv (fst (fold stop_all_entry es (s, n))) \<and>
   nextRef (fst (fold stop_all_entry es (s, n))) = nextRef s"
proof (induction es arbitrary: s n)
  case Nil
  then show ?case by simp
next
  case (Cons e es)
  obtain s1 n1 where st: "stop_all_entry e (s, n) = (s1, n1)"
    by (cases "stop_all_entry e (s, n)")
  have a: "server_inv s1 \<and> nextRef s1 = nextRef s"
    using stop_all_entry_inv [of s e n] Cons.prems st by simp
  then have "server_inv (fst (fold stop_all_entry es (s1, n1))) \<and>
      nextRef (fst (fold stop_all_entry es (s1, n1))) = nextRef s1"
    using Cons.prems by (intro Cons.IH) simp_all
  then show ?case using a st by simp
qed

lemma stop_all_tasks_inv: "server_inv s \<Longrightarrow> server_inv (fst (stop_all_tasks s))"
  using fold_stop_all_entry_inv [of s "tasks s" 0]
  by (simp add: stop_all_tasks_def tasks_bound case_prod_beta Let_def)

lemma cleanup_entry_inv:
  "server_inv s \<Longrightarrow> server_inv (cleanup_entry cutoffTime e s)"
  using delete_refs_bound [of "tasks s" "nextRef s" "fst e"]
  by (cases e) (simp add: cleanup_entry_def server_inv_def)

lemma fold_cleanup_entry_inv:
  "server_inv s \<Longrightarrow> server_inv (fold (cleanup_entry cutoffTime) es s)"
  by (induction es arbitrary: s) (simp_all add: cleanup_entry_inv)

lemma cleanup_inv: "server_inv s \<Longrightarrow> server_inv (cleanup now s)"
  by (simp add: cleanup_def fold_cleanup_entry_inv)

lemma delivery_log_inv: "server_inv s \<Longrightarrow> server_inv (delivery_log r text type s)"
  by (simp add: delivery_log_def split: option.splits prod.splits pc.splits)


lemma count_task_fields [simp]:
  "completed (count_task ok t) = completed t + 1"
  "success (count_task ok t) = (if ok then success t + 1 else success t)"
  "failed (count_task ok t) = (if ok then failed t else failed t + 1)"
  "total (count_task ok t) = total t"
  "status (count_task ok t) = status t"
  "isStopped (count_task ok t) = isStopped t"
  "batch_count (count_task ok t) = batch_count t"
  "messages (count_task ok t) = messages t"
  "conversations (count_task ok t) = conversations t"
  "task_id (count_task ok t) = task_id t"
  "startTime (count_task ok t) = startTime t"
  "cookies (count_task ok t) = cookies t"
  "batch_delay (count_task ok t) = batch_delay t"
  "time_delay (count_task ok t) = time_delay t"
  "user_id (count_task ok t) = user_id t"
  by (simp_all add: count_task_def Let_def)

lemma ops_per_batch_count_task [simp]: "ops_per_batch (count_task ok t) = ops_per_batch t"
  by (simp add: ops_per_batch_def)

lemma ops_left_at_count_task [simp]: "ops_left_at (count_task ok t) l = ops_left_at t l"
  by (cases l) simp_all

lemma ops_left_count_task [simp]: "ops_left (count_task ok t) q = ops_left t q"
  by (cases q) simp_all

lemma loc_ok_count_task [simp]: "loc_ok (count_task ok t) l = loc_ok t l"
  by (cases l) simp_all

lemma task_inv_weaken: "task_inv t p \<Longrightarrow> task_inv t None"
  by (cases p) (auto intro: task_inv_None)

lemma resume_inv: "server_inv s \<Longrightarrow> server_inv (resume r s)"
proof (cases "r < nextRef s")
  case True
  assume i: "server_inv s"
  show ?thesis
    by (rule inv_update [OF i True, where t' = "heap s r" and p' = None])
       (use i True in \<open>simp_all add: resume_def tasks_bound task_inv_weaken [OF inv_task] server_inv_def\<close>)
next
  case False
  assume i: "server_inv s"
  then have "procs s r = None" using False unfolding server_inv_def by blast
  then have "resume r s = s" by (simp add: resume_def fun_upd_idem)
  then show ?thesis using i by simp
qed

lemma task_inv_SomeD:
  assumes "task_inv t (Some (taskId, q))"
  shows "pc_batch q < batch_count t" and "completed t + ops_left t q \<le> total t"
    and "\<not> isStopped t \<longrightarrow> completed t + ops_left t q = total t"
    and "status t \<noteq> ''queued''" and "0 \<le> pc_batch q"
  using assms unfolding task_inv_def option.case prod.case by blast+

lemma task_inv_counted:
  assumes "task_inv t (Some (taskId, AwaitSend b c cs ms))"
  shows "task_inv (count_task ok t) None"
    and "completed (count_task ok t) + ops_left_at t (AtMsg b c cs ms) \<le> total t"
    and "\<not> isStopped t \<longrightarrow> completed (count_task ok t) + ops_left_at t (AtMsg b c cs ms) = total t"
    and "b < batch_count t" and "status t \<noteq> ''queued''" and "0 \<le> b"
proof -
  note d = task_inv_SomeD [OF assms]
  show b0: "0 \<le> b" using d(5) by simp
  show b: "b < batch_count t" using d(1) by simp
  have "0 \<le> ops_left_at t (AtMsg b c cs ms)"
    using b b0 by (intro ops_left_at_nonneg) simp
  then show "task_inv (count_task ok t) None"
    using assms by (auto simp: task_inv_def)
  show "completed (count_task ok t) + ops_left_at t (AtMsg b c cs ms) \<le> total t"
    using d(2) by (auto simp del: ops_left_at.simps)
  show "\<not> isStopped t \<longrightarrow> completed (count_task ok t) + ops_left_at t (AtMsg b c cs ms) = total t"
    using d(3) by (auto simp del: ops_left_at.simps)
  show "status t \<noteq> ''queued''" by (rule d(4))
qed


lemma suspended_ref: "server_inv s \<Longrightarrow> procs s r = Some x \<Longrightarrow> r < nextRef s"
  unfolding server_inv_def by blast

lemma count_result_inv:
  assumes i: "server_inv s" and r: "r < nextRef s" and p: "procs s r = None"
    and t: "task_inv (count_task ok (heap s r)) None" and q: "status (heap s r) \<noteq> ''queued''"
  shows "server_inv (count_result r taskId ok s)"
  by (rule inv_update [OF i r, where t' = "count_task ok (heap s r)" and p' = None])
     (use tasks_update_bound [OF i r] p t q in \<open>simp_all add: count_result_def fun_upd_idem\<close>)

lemma catch_block_inv:
  assumes i: "server_inv s" and r: "r < nextRef s"
  shows "server_inv (catch_block r taskId s)"
  by (rule inv_update [OF i r, where t' = "(heap s r)\<lparr>status := ''error''\<rparr>" and p' = "procs s r"])
     (use tasks_bound [OF i] inv_task [OF i r] in \<open>simp_all add: catch_block_def task_inv_status\<close>)

lemma send_settled_inv: "server_inv s \<Longrightarrow> server_inv (send_settled rnd r out s)"
proof (cases "procs s r")
  case None
  assume "server_inv s"
  then show ?thesis using None by (simp add: send_settled_def)
next
  case (Some x)
  assume i: "server_inv s"
  obtain taskId q where x: "x = (taskId, q)" by (cases x)
  have r: "r < nextRef s" using i Some by (rule suspended_ref)
  have t: "task_inv (heap s r) (Some (taskId, q))"
    using inv_task [OF i r] Some x by simp
  define s0 where "s0 = resume r s"
  have i0: "server_inv s0" using i by (simp add: s0_def resume_inv)
  have f0: "heap s0 = heap s" "nextRef s0 = nextRef s" "procs s0 r = None"
    by (simp_all add: s0_def resume_def)
  show ?thesis
  proof (cases q)
    case (AwaitSend b c cs ms)
    note c = task_inv_counted [OF t [unfolded AwaitSend]]
    show ?thesis
    proof (cases out)
      case Threw
      have "server_inv (finally_block r taskId (catch_block r taskId s0))"
        using i0 r by (intro inv_finally_block catch_block_inv) (simp_all add: f0 catch_block_def)
      then show ?thesis
        using Some x AwaitSend Threw
        by (simp add: send_settled_def s0_def processTaskQueue_inv)
    next
      case (Returned ok)
      define s1 where "s1 = count_result r taskId ok s0"
      have i1: "server_inv s1"
        unfolding s1_def using i0 r c(1,5) by (intro count_result_inv) (simp_all add: f0)
      have f1: "heap s1 r = count_task ok (heap s r)" "nextRef s1 = nextRef s" "procs s1 r = None"
        by (simp_all add: s1_def count_result_def f0)
      have eq: "send_settled rnd r out s =
        (if completed (heap s1 r) < total (heap s1 r) \<and> \<not> isStopped (heap s1 r)
         then s1\<lparr>procs := (procs s1)(r \<mapsto> (taskId, AwaitTimeDelay b c cs ms))\<rparr>
         else then_queue rnd (continue rnd r taskId (AtMsg b c cs ms) s1))"
        using Some x AwaitSend Returned
        by (simp add: send_settled_def s0_def s1_def Let_def)
      show ?thesis
      proof (cases "completed (heap s1 r) < total (heap s1 r) \<and> \<not> isStopped (heap s1 r)")
        case True
        have "task_inv (heap s1 r) (Some (taskId, AwaitTimeDelay b c cs ms))"
          using c by (intro task_inv_Some) (simp_all add: f1 del: ops_left_at.simps)
        then have "server_inv (s1\<lparr>procs := (procs s1)(r := Some (taskId, AwaitTimeDelay b c cs ms))\<rparr>)"
          using i1 r by (intro inv_procs_update) (simp_all add: f1)
        then show ?thesis
          unfolding eq if_P [OF True] .
      next
        case False
        have "server_inv (fst (continue rnd r taskId (AtMsg b c cs ms) s1))"
          using i1 r c by (intro continue_inv) (simp_all add: f1 del: ops_left_at.simps)
        then have "server_inv (then_queue rnd (continue rnd r taskId (AtMsg b c cs ms) s1))"
          by (rule then_queue_inv)
        then show ?thesis
          unfolding eq if_not_P [OF False] .
      qed
    qed
  next
    case (AwaitTimeDelay b c cs ms)
    then show ?thesis using i Some x by (simp add: send_settled_def)
  next
    case (AwaitBatchDelay b)
    then show ?thesis using i Some x by (simp add: send_settled_def)
  qed
qed


lemma timer_fired_inv: "server_inv s \<Longrightarrow> server_inv (timer_fired rnd r s)"
proof (cases "procs s r")
  case None
  assume "server_inv s"
  then show ?thesis using None by (simp add: timer_fired_def)
next
  case (Some x)
  assume i: "server_inv s"
  obtain taskId q where x: "x = (taskId, q)" by (cases x)
  have r: "r < nextRef s" using i Some by (rule suspended_ref)
  have t: "task_inv (heap s r) (Some (taskId, q))"
    using inv_task [OF i r] Some x by simp
  note d = task_inv_SomeD [OF t]
  define s0 where "s0 = resume r s"
  have i0: "server_inv s0" using i by (simp add: s0_def resume_inv)
  have f0: "heap s0 = heap s" "nextRef s0 = nextRef s" "procs s0 r = None"
    by (simp_all add: s0_def resume_def)
  show ?thesis
  proof (cases q)
    case (AwaitSend b c cs ms)
    then show ?thesis using i Some x by (simp add: timer_fired_def)
  next
    case (AwaitTimeDelay b c cs ms)
    have "server_inv (fst (continue rnd r taskId (AtMsg b c cs ms) s0))"
      using i0 r d by (intro continue_inv) (simp_all add: f0 AwaitTimeDelay del: ops_left_at.simps)
    then have "server_inv (then_queue rnd (continue rnd r taskId (AtMsg b c cs ms) s0))"
      by (rule then_queue_inv)
    then show ?thesis
      using Some x AwaitTimeDelay by (simp add: timer_fired_def s0_def)
  next
    case (AwaitBatchDelay b)
    have "server_inv (fst (continue rnd r taskId (AtBatch (b + 1)) s0))"
      using i0 r d by (intro continue_inv) (simp_all add: f0 AwaitBatchDelay algebra_simps)
    then have "server_inv (then_queue rnd (continue rnd r taskId (AtBatch (b + 1)) s0))"
      by (rule then_queue_inv)
    then show ?thesis
      using Some x AwaitBatchDelay by (simp add: timer_fired_def s0_def)
  qed
qed

lemma step_inv: "server_inv s \<Longrightarrow> server_inv (step rnd e s)"
  by (cases e)
     (simp_all add: start_task_inv stop_task_inv stop_all_tasks_inv send_settled_inv
        timer_fired_inv delivery_log_inv cleanup_inv)

lemma fold_step_inv: "server_inv s \<Longrightarrow> server_inv (fold (step rnd) es s)"
  by (induction es arbitrary: s) (simp_all add: step_inv)

lemma init_inv: "server_inv init"
  by (simp add: server_inv_def init_def)

lemma run_events_inv: "server_inv (run_events rnd es init)"
  unfolding run_events_def by (rule fold_step_inv [OF init_inv])

section \<open>What a call of the task processor changes\<close>

lemma send_count_addLog [simp]: "send_count (addLog taskId m ty s) r = send_count s r"
  by (simp add: send_count_def)

lemma run_send_count:
  "send_count (fst (run rnd t taskId r l s)) r
     = send_count s r + pending_send (snd (run rnd t taskId r l s))"
  by (induction rnd t taskId r l s rule: run.induct)
     (simp_all add: Let_def case_prod_beta send_count_def)

lemma run_send_count_other:
  "r' \<noteq> r \<Longrightarrow> send_count (fst (run rnd t taskId r l s)) r' = send_count s r'"
  by (induction rnd t taskId r l s rule: run.induct)
     (simp_all add: Let_def case_prod_beta send_count_def)


lemma continue_heap:
  "\<exists>st. heap (fst (continue rnd r taskId l s)) = (heap s)(r := (heap s r)\<lparr>status := st\<rparr>)"
proof (cases "run rnd (heap s r) taskId r l s")
  case (Pair s1 res)
  have h: "heap s1 = heap s" using run_frame [of rnd "heap s r" taskId r l s] Pair by simp
  show ?thesis
  proof (cases res)
    case None
    then show ?thesis
      using Pair h by (auto simp: continue_def finally_block_def finalize_def Let_def)
  next
    case (Some q)
    have "heap (fst (continue rnd r taskId l s)) = (heap s)(r := (heap s r)\<lparr>status := status (heap s r)\<rparr>)"
      using Pair Some h by (simp add: continue_def)
    then show ?thesis by blast
  qed
qed

lemma processTask_heap:
  "\<exists>r st. heap (fst (processTask rnd taskId s)) = (heap s)(r := (heap s r)\<lparr>status := st\<rparr>)"
proof (cases "map_of (tasks s) taskId")
  case None
  have "heap (fst (processTask rnd taskId s)) = (heap s)(0 := (heap s 0)\<lparr>status := status (heap s 0)\<rparr>)"
    using None by (simp add: processTask_def)
  then show ?thesis by blast
next
  case (Some r)
  define s2 where "s2 = addLog taskId TaskStartedProcessing ''INFO''
     (s\<lparr>heap := (heap s)(r := (heap s r)\<lparr>status := ''running''\<rparr>),
        activeTasks := activeTasks s + 1,
        tasks := AList.update taskId r (tasks s)\<rparr>)"
  have pt: "processTask rnd taskId s = continue rnd r taskId (AtBatch 0) s2"
    using Some by (simp add: processTask_def s2_def Let_def)
  obtain st where "heap (fst (continue rnd r taskId (AtBatch 0) s2)) = (heap s2)(r := (heap s2 r)\<lparr>status := st\<rparr>)"
    using continue_heap by blast
  then have "heap (fst (processTask rnd taskId s)) = (heap s)(r := (heap s r)\<lparr>status := st\<rparr>)"
    by (simp add: pt s2_def)
  then show ?thesis by blast
qed

lemma processTaskQueue_heap:
  "\<exists>st. heap (processTaskQueue rnd s) r = (heap s r)\<lparr>status := st\<rparr>"
proof (rule processTaskQueue_preserves [where P = "\<lambda>s'. \<exists>st. heap s' r = (heap s r)\<lparr>status := st\<rparr>"])
  fix rnd and s' :: state and taskId r'
  assume "\<exists>st. heap s' r = (heap s r)\<lparr>status := st\<rparr>"
  then obtain st where a: "heap s' r = (heap s r)\<lparr>status := st\<rparr>" by blast
  obtain r0 st0 where b: "heap (fst (processTask rnd taskId s')) = (heap s')(r0 := (heap s' r0)\<lparr>status := st0\<rparr>)"
    using processTask_heap by blast
  show "\<exists>st. heap (fst (processTask rnd taskId s')) r = (heap s r)\<lparr>status := st\<rparr>"
  proof (cases "r0 = r")
    case True
    then have "heap (fst (processTask rnd taskId s')) r = (heap s r)\<lparr>status := st0\<rparr>"
      by (simp add: a b)
    then show ?thesis by blast
  next
    case False
    then have "heap (fst (processTask rnd taskId s')) r = (heap s r)\<lparr>status := st\<rparr>"
      by (simp add: a b)
    then show ?thesis by blast
  qed
next
  have "heap s r = (heap s r)\<lparr>status := status (heap s r)\<rparr>" by simp
  then show "\<exists>st. heap s r = (heap s r)\<lparr>status := st\<rparr>" by blast
qed simp

lemma enqueue_task_heap:
  "\<exists>st. heap (enqueue_task rnd taskId task s) (nextRef s) = task\<lparr>status := st\<rparr>"
proof -
  define s7 where "s7 = (addLog taskId (TotalOperations (total task)) ''INFO''
     (addLog taskId (ConversationsCount (length (conversations task))) ''INFO''
     (addLog taskId (MessagesCount (length (messages task))) ''INFO''
     (addLog taskId (CookiesCount (length (cookies task))) ''INFO''
     (addLog taskId TaskCreatedAndQueued ''INFO''
       (s\<lparr>heap := (heap s)(nextRef s := task), nextRef := nextRef s + 1,
          tasks := AList.update taskId (nextRef s) (tasks s),
          logs := AList.update taskId [] (logs s)\<rparr>))))))
     \<lparr>taskQueue := taskQueue s @ [taskId]\<rparr>"
  have eq: "enqueue_task rnd taskId task s = processTaskQueue rnd s7"
    by (simp add: enqueue_task_def Let_def s7_def)
  have "heap s7 (nextRef s) = task" by (simp add: s7_def)
  then show ?thesis
    using processTaskQueue_heap [of rnd s7 "nextRef s"] by (simp add: eq)
qed

lemma floor_id_range:
  "1000 \<le> \<lfloor>1000 + random rnd k * 9000\<rfloor> \<and> \<lfloor>1000 + random rnd k * 9000\<rfloor> \<le> 9999"
proof -
  have a: "0 \<le> random rnd k" and b: "random rnd k < 1"
    by (simp_all add: random_def frac_lt_1)
  have "1000 \<le> 1000 + random rnd k * 9000" using a by simp
  then have l: "1000 \<le> \<lfloor>1000 + random rnd k * 9000\<rfloor>" by linarith
  have "1000 + random rnd k * 9000 < 10000" using b by simp
  then have "\<lfloor>1000 + random rnd k * 9000\<rfloor> < 10000" by linarith
  then show ?thesis using l by simp
qed

section \<open>A task that is admitted at once\<close>

lemma run_first_send:
  assumes "0 < batch_count t" and "\<not> isStopped t"
    and "conversations t = c # cs" and "messages t = m # ms"
  shows "snd (run rnd t taskId r (AtBatch 0) s) = Some (AwaitSend 0 c cs ms)"
    and "sent (fst (run rnd t taskId r (AtBatch 0) s))
           = sent s @ [(r, cookies t, c, fst (enhanceMessage rnd (rngPos s) m))]"
    and "rngPos (fst (run rnd t taskId r (AtBatch 0) s)) = snd (enhanceMessage rnd (rngPos s) m)"
  using assms by (simp_all add: Let_def case_prod_beta)

lemma processTask_first_send:
  assumes m: "map_of (tasks s) taskId = Some r"
    and "0 < batch_count (heap s r)" and "\<not> isStopped (heap s r)"
    and "conversations (heap s r) = c # cs" and "messages (heap s r) = m # ms"
  shows "snd (processTask rnd taskId s) = False"
    and "heap (fst (processTask rnd taskId s)) = (heap s)(r := (heap s r)\<lparr>status := ''running''\<rparr>)"
    and "nextRef (fst (processTask rnd taskId s)) = nextRef s"
    and "tasks (fst (processTask rnd taskId s)) = AList.update taskId r (tasks s)"
    and "taskQueue (fst (processTask rnd taskId s)) = taskQueue s"
    and "activeTasks (fst (processTask rnd taskId s)) = activeTasks s + 1"
    and "procs (fst (processTask rnd taskId s)) = (procs s)(r \<mapsto> (taskId, AwaitSend 0 c cs ms))"
    and "sent (fst (processTask rnd taskId s))
           = sent s @ [(r, cookies (heap s r), c, fst (enhanceMessage rnd (rngPos s) m))]"
    and "rngPos (fst (processTask rnd taskId s)) = snd (enhanceMessage rnd (rngPos s) m)"
proof -
  define s2 where "s2 = addLog taskId TaskStartedProcessing ''INFO''
     (s\<lparr>heap := (heap s)(r := (heap s r)\<lparr>status := ''running''\<rparr>),
        activeTasks := activeTasks s + 1,
        tasks := AList.update taskId r (tasks s)\<rparr>)"
  define t where "t = heap s2 r"
  have t: "0 < batch_count t" "\<not> isStopped t" "conversations t = c # cs" "messages t = m # ms"
    using assms(2-5) by (simp_all add: t_def s2_def)
  obtain s3 res where run: "run rnd t taskId r (AtBatch 0) s2 = (s3, res)"
    by (cases "run rnd t taskId r (AtBatch 0) s2")
  have res: "res = Some (AwaitSend 0 c cs ms)"
    using run_first_send(1) [OF t, of rnd taskId r s2] run by simp
  have fr: "heap s3 = heap s2" "nextRef s3 = nextRef s2" "tasks s3 = tasks s2"
    "taskQueue s3 = taskQueue s2" "activeTasks s3 = activeTasks s2" "procs s3 = procs s2"
    using run_frame [of rnd t taskId r "AtBatch 0" s2] run by simp_all
  have se: "sent s3 = sent s2 @ [(r, cookies t, c, fst (enhanceMessage rnd (rngPos s2) m))]"
    "rngPos s3 = snd (enhanceMessage rnd (rngPos s2) m)"
    using run_first_send(2,3) [OF t, of rnd taskId r s2] run by simp_all
  have pc: "processTask rnd taskId s = continue rnd r taskId (AtBatch 0) s2"
    using m by (simp add: processTask_def s2_def Let_def)
  have pt: "processTask rnd taskId s = (s3\<lparr>procs := (procs s3)(r \<mapsto> (taskId, AwaitSend 0 c cs ms))\<rparr>, False)"
    unfolding pc continue_def t_def [symmetric] run res by simp
  show "snd (processTask rnd taskId s) = False" by (simp add: pt)
  show "heap (fst (processTask rnd taskId s)) = (heap s)(r := (heap s r)\<lparr>status := ''running''\<rparr>)"
    by (simp add: pt fr) (simp add: s2_def)
  show "nextRef (fst (processTask rnd taskId s)) = nextRef s"
    by (simp add: pt fr) (simp add: s2_def)
  show "tasks (fst (processTask rnd taskId s)) = AList.update taskId r (tasks s)"
    by (simp add: pt fr) (simp add: s2_def)
  show "taskQueue (fst (processTask rnd taskId s)) = taskQueue s"
    by (simp add: pt fr) (simp add: s2_def)
  show "activeTasks (fst (processTask rnd taskId s)) = activeTasks s + 1"
    by (simp add: pt fr) (simp add: s2_def)
  show "procs (fst (processTask rnd taskId s)) = (procs s)(r \<mapsto> (taskId, AwaitSend 0 c cs ms))"
    by (simp add: pt fr) (simp add: s2_def)
  show "sent (fst (processTask rnd taskId s)) = sent s @ [(r, cookies (heap s r), c, fst (enhanceMessage rnd (rngPos s) m))]"
    by (simp add: pt se) (simp add: s2_def t_def)
  show "rngPos (fst (processTask rnd taskId s)) = snd (enhanceMessage rnd (rngPos s) m)"
    by (simp add: pt se) (simp add: s2_def)
qed

lemma processTaskQueue_admit_last:
  assumes a: "activeTasks s < MAX_CONCURRENT_TASKS" and q: "taskQueue s = [taskId]"
    and m: "map_of (tasks s) taskId = Some r"
    and st: "status (heap s r) = ''queued''" and ns: "\<not> isStopped (heap s r)"
    and bc: "0 < batch_count (heap s r)"
    and cs: "conversations (heap s r) = c # cs" and ms: "messages (heap s r) = m # ms"
  shows "processTaskQueue rnd s = fst (processTask rnd taskId (s\<lparr>taskQueue := []\<rparr>))"
proof -
  define s1 where "s1 = s\<lparr>taskQueue := []\<rparr>"
  have c: "activeTasks s < MAX_CONCURRENT_TASKS \<and> length (taskQueue s) > 0"
    using a q by simp
  have h: "map_of (tasks s1) taskId = Some r" "0 < batch_count (heap s1 r)"
    "\<not> isStopped (heap s1 r)" "conversations (heap s1 r) = c # cs" "messages (heap s1 r) = m # ms"
    using m ns bc cs ms by (simp_all add: s1_def)
  note p = processTask_first_send [OF h, of rnd]
  obtain s2 b where pt: "processTask rnd taskId s1 = (s2, b)"
    by (cases "processTask rnd taskId s1")
  have b: "b = False" using p(1) pt by simp
  have "taskQueue s2 = []" using p(5) pt by (simp add: s1_def)
  then have idle: "processTaskQueue rnd s2 = s2"
    by (intro processTaskQueue_idle) simp
  have "processTaskQueue rnd s = processTaskQueue rnd s2"
    unfolding processTaskQueue_unfold [OF c]
    using m st ns pt b q by (simp add: s1_def)
  then show ?thesis using idle pt by (simp add: s1_def)
qed


lemma enqueue_task_admitted:
  assumes q: "taskQueue s = []" and a: "activeTasks s < MAX_CONCURRENT_TASKS"
    and st: "status task = ''queued''" and ns: "\<not> isStopped task"
    and bc: "0 < batch_count task"
    and cs: "conversations task = c # cs" and ms: "messages task = m # ms"
  shows "heap (enqueue_task rnd taskId task s) = (heap s)(nextRef s := task\<lparr>status := ''running''\<rparr>)"
    and "nextRef (enqueue_task rnd taskId task s) = Suc (nextRef s)"
    and "tasks (enqueue_task rnd taskId task s) = AList.update taskId (nextRef s) (tasks s)"
    and "taskQueue (enqueue_task rnd taskId task s) = []"
    and "activeTasks (enqueue_task rnd taskId task s) = activeTasks s + 1"
    and "procs (enqueue_task rnd taskId task s)
           = (procs s)(nextRef s \<mapsto> (taskId, AwaitSend 0 c cs ms))"
    and "sent (enqueue_task rnd taskId task s)
           = sent s @ [(nextRef s, cookies task, c, fst (enhanceMessage rnd (rngPos s) m))]"
    and "rngPos (enqueue_task rnd taskId task s) = snd (enhanceMessage rnd (rngPos s) m)"
proof -
  define s7 where "s7 = (addLog taskId (TotalOperations (total task)) ''INFO''
     (addLog taskId (ConversationsCount (length (conversations task))) ''INFO''
     (addLog taskId (MessagesCount (length (messages task))) ''INFO''
     (addLog taskId (CookiesCount (length (cookies task))) ''INFO''
     (addLog taskId TaskCreatedAndQueued ''INFO''
       (s\<lparr>heap := (heap s)(nextRef s := task), nextRef := nextRef s + 1,
          tasks := AList.update taskId (nextRef s) (tasks s),
          logs := AList.update taskId [] (logs s)\<rparr>))))))
     \<lparr>taskQueue := taskQueue s @ [taskId]\<rparr>"
  have eq: "enqueue_task rnd taskId task s = processTaskQueue rnd s7"
    by (simp add: enqueue_task_def Let_def s7_def)
  have f: "heap s7 = (heap s)(nextRef s := task)" "nextRef s7 = Suc (nextRef s)"
    "tasks s7 = AList.update taskId (nextRef s) (tasks s)" "procs s7 = procs s" "sent s7 = sent s"
    "taskQueue s7 = [taskId]" "activeTasks s7 = activeTasks s" "rngPos s7 = rngPos s"
    using q by (simp_all add: s7_def)
  define s8 where "s8 = s7\<lparr>taskQueue := []\<rparr>"
  have h: "map_of (tasks s7) taskId = Some (nextRef s)"
    by (simp add: f update_conv')
  have h8: "map_of (tasks s8) taskId = Some (nextRef s)" "0 < batch_count (heap s8 (nextRef s))"
    "\<not> isStopped (heap s8 (nextRef s))" "conversations (heap s8 (nextRef s)) = c # cs"
    "messages (heap s8 (nextRef s)) = m # ms"
    using h ns bc cs ms by (simp_all add: s8_def f)
  have eq2: "enqueue_task rnd taskId task s = fst (processTask rnd taskId s8)"
    unfolding eq s8_def
    by (rule processTaskQueue_admit_last [where r = "nextRef s" and c = c and cs = cs and m = m and ms = ms])
       (use a st ns bc cs ms h in \<open>simp_all add: f\<close>)
  note p = processTask_first_send [OF h8, of rnd]
  show "heap (enqueue_task rnd taskId task s) = (heap s)(nextRef s := task\<lparr>status := ''running''\<rparr>)"
    unfolding eq2 p by (simp add: s8_def f)
  show "nextRef (enqueue_task rnd taskId task s) = Suc (nextRef s)"
    unfolding eq2 p by (simp add: s8_def f)
  show "tasks (enqueue_task rnd taskId task s) = AList.update taskId (nextRef s) (tasks s)"
    unfolding eq2 p by (simp add: s8_def f)
  show "taskQueue (enqueue_task rnd taskId task s) = []"
    unfolding eq2 p by (simp add: s8_def f)
  show "activeTasks (enqueue_task rnd taskId task s) = activeTasks s + 1"
    unfolding eq2 p by (simp add: s8_def f)
  show "procs (enqueue_task rnd taskId task s) = (procs s)(nextRef s \<mapsto> (taskId, AwaitSend 0 c cs ms))"
    unfolding eq2 p by (simp add: s8_def f)
  show "sent (enqueue_task rnd taskId task s) = sent s @ [(nextRef s, cookies task, c, fst (enhanceMessage rnd (rngPos s) m))]"
    unfolding eq2 p by (simp add: s8_def f)
  show "rngPos (enqueue_task rnd taskId task s) = snd (enhanceMessage rnd (rngPos s) m)"
    unfolding eq2 p by (simp add: s8_def f)
qed

lemma trim_nonempty: "trim x \<noteq> [] \<Longrightarrow> x \<noteq> []"
  by (auto simp: trim_def)

lemma start_task_accepted:
  assumes "trim (req_cookies req) \<noteq> []" and "trim (req_messages req) \<noteq> []"
    and "trim (req_conversation_id req) \<noteq> []"
    and "length (filter (\<lambda>(k, r). user_id (heap s r) = req_user_id req \<and> status (heap s r) = ''running'')
           (tasks s)) < MAX_TASKS_PER_USER"
    and "parseCookies (req_cookies req) \<noteq> []"
    and "nonempty_lines (req_messages req) \<noteq> []"
    and "nonempty_lines (req_conversation_id req) \<noteq> []"
  shows "start_task rnd now req s =
     (let taskId = fst (generateTaskId rnd (rngPos s));
          task = new_task taskId now req;
          s8 = enqueue_task rnd taskId task (s\<lparr>rngPos := Suc (rngPos s)\<rparr>)
      in (s8, Started taskId (total task) (batch_count task) (batch_delay task) (time_delay task)
                (length (taskQueue s8))))"
  using assms trim_nonempty [OF assms(1)] trim_nonempty [OF assms(2)] trim_nonempty [OF assms(3)]
  by (simp add: start_task_def Let_def generateTaskId_def new_task_def)

section \<open>How task objects change in a run\<close>

lemma task_le_refl [simp]: "task_le t t"
  by (simp add: task_le_def)

lemma task_le_trans: "task_le a b \<Longrightarrow> task_le b c \<Longrightarrow> task_le a c"
  by (auto simp: task_le_def)

lemma task_le_status:
  "terminal (status t) \<longrightarrow> terminal st \<Longrightarrow> task_le t (t\<lparr>status := st\<rparr>)"
  by (simp add: task_le_def)

lemma task_le_stop: "task_le t (t\<lparr>isStopped := True, status := ''stopped''\<rparr>)"
  by (simp add: task_le_def terminal_def)

lemma task_le_count: "task_le t (count_task ok t)"
  by (simp add: task_le_def)

lemma acts_on_refl [simp]: "acts_on r s s"
  by (auto simp: acts_on_def)

lemma acts_on_trans:
  assumes "acts_on r a b" and "acts_on r b c"
  shows "acts_on r a c"
proof -
  have "senders c \<subseteq> insert r (senders a)"
    using assms unfolding acts_on_def by blast
  moreover have "task_le (heap a r) (heap c r)"
    using assms unfolding acts_on_def by (blast intro: task_le_trans)
  ultimately show ?thesis
    using assms by (simp add: acts_on_def)
qed

lemma acts_on_frame:
  assumes "heap s' = heap s" and "nextRef s' = nextRef s" and "procs s' = procs s"
    and "sent s' = sent s"
  shows "acts_on r s s'"
  using assms by (auto simp: acts_on_def senders_def)

lemma acts_on_update:
  assumes "nextRef s' = nextRef s" and "heap s' = (heap s)(r := t')"
    and "procs s' = (procs s)(r := p')" and "sent s' = sent s" and "task_le (heap s r) t'"
  shows "acts_on r s s'"
  using assms by (auto simp: acts_on_def senders_def)

lemma evolves_refl [simp]: "evolves s s"
  by (simp add: evolves_def frozen_def)

lemma evolves_trans:
  assumes "evolves a b" and "evolves b c"
  shows "evolves a c"
proof -
  have n: "nextRef a \<le> nextRef b" "nextRef b \<le> nextRef c"
    using assms by (simp_all add: evolves_def)
  have "task_le (heap a r) (heap c r) \<and>
         (frozen a r \<longrightarrow> heap c r = heap a r \<and> procs c r = None \<and>
            (r \<in> senders c \<longrightarrow> r \<in> senders a))"
    if r: "r < nextRef a" for r
  proof -
    have rb: "r < nextRef b" using r n by simp
    have ab: "task_le (heap a r) (heap b r)"
      "frozen a r \<longrightarrow> heap b r = heap a r \<and> procs b r = None \<and>
            (r \<in> senders b \<longrightarrow> r \<in> senders a)"
      using assms(1) r by (simp_all add: evolves_def)
    have bc: "task_le (heap b r) (heap c r)"
      "frozen b r \<longrightarrow> heap c r = heap b r \<and> procs c r = None \<and>
            (r \<in> senders c \<longrightarrow> r \<in> senders b)"
      using assms(2) rb by (simp_all add: evolves_def)
    have "frozen a r \<longrightarrow> frozen b r"
      using ab(2) by (auto simp: frozen_def)
    then show ?thesis
      using ab bc task_le_trans [OF ab(1) bc(1)] by auto
  qed
  then show ?thesis using n by (simp add: evolves_def)
qed

lemma acts_on_evolves:
  assumes "acts_on r s s'" and "\<not> frozen s r"
  shows "evolves s s'"
proof -
  have a: "task_le (heap s r') (heap s' r')" for r'
    using assms(1) by (cases "r' = r") (simp_all add: acts_on_def)
  have b: "heap s' r' = heap s r' \<and> procs s' r' = None \<and>
         (r' \<in> senders s' \<longrightarrow> r' \<in> senders s)" if f: "frozen s r'" for r'
  proof -
    have ne: "r' \<noteq> r" using assms(2) f by auto
    have "senders s' \<subseteq> insert r (senders s)"
      using assms(1) by (simp add: acts_on_def)
    then have "r' \<in> senders s' \<longrightarrow> r' \<in> senders s"
      using ne by blast
    then show ?thesis
      using assms(1) ne f by (simp add: acts_on_def frozen_def)
  qed
  have "nextRef s \<le> nextRef s'" using assms(1) by (simp add: acts_on_def)
  then show ?thesis unfolding evolves_def using a b by blast
qed


lemma evolves_frame:
  assumes "evolves a b" and "heap b' = heap b" and "nextRef b' = nextRef b"
    and "procs b' = procs b" and "sent b' = sent b"
  shows "evolves a b'"
  using assms by (simp add: evolves_def senders_def)

lemma run_acts_on: "acts_on r s (fst (run rnd t taskId r l s))"
  using run_sent [of rnd t taskId r l s] by (simp add: acts_on_def senders_def run_frame)

lemma finalize_acts_on: "acts_on r s (finalize r taskId s)"
  by (rule acts_on_update [where p' = "procs s r" and
        t' = "(heap s r)\<lparr>status := if isStopped (heap s r) then ''stopped'' else ''completed''\<rparr>"])
     (simp_all add: finalize_def Let_def task_le_status terminal_def)

lemma catch_block_acts_on: "acts_on r s (catch_block r taskId s)"
  by (rule acts_on_update [where p' = "procs s r" and t' = "(heap s r)\<lparr>status := ''error''\<rparr>"])
     (simp_all add: catch_block_def task_le_status terminal_def)

lemma finally_block_acts_on: "acts_on r s (finally_block r taskId s)"
  by (rule acts_on_frame) (simp_all add: finally_block_def)

lemma resume_acts_on: "acts_on r s (resume r s)"
  by (rule acts_on_update [where p' = None and t' = "heap s r"]) (simp_all add: resume_def)

lemma count_result_acts_on: "acts_on r s (count_result r taskId ok s)"
  by (rule acts_on_update [where p' = "procs s r" and t' = "count_task ok (heap s r)"])
     (simp_all add: count_result_def task_le_count)

lemma continue_acts_on: "acts_on r s (fst (continue rnd r taskId l s))"
proof (cases "run rnd (heap s r) taskId r l s")
  case (Pair s1 res)
  have a: "acts_on r s s1"
    using run_acts_on [of r s rnd "heap s r" taskId l] Pair by simp
  show ?thesis
  proof (cases res)
    case None
    have "acts_on r s1 (finally_block r taskId (finalize r taskId s1))"
      by (rule acts_on_trans [OF finalize_acts_on finally_block_acts_on])
    then show ?thesis
      using a Pair None by (auto simp: continue_def intro: acts_on_trans)
  next
    case (Some q)
    have "acts_on r s1 (s1\<lparr>procs := (procs s1)(r \<mapsto> (taskId, q))\<rparr>)"
      by (rule acts_on_update [where t' = "heap s1 r"]) simp_all
    then show ?thesis
      using a Pair Some by (auto simp: continue_def intro: acts_on_trans)
  qed
qed

lemma processTask_acts_on:
  assumes m: "map_of (tasks s) taskId = Some r" and q: "status (heap s r) = ''queued''"
  shows "acts_on r s (fst (processTask rnd taskId s))"
proof -
  define s2 where "s2 = addLog taskId TaskStartedProcessing ''INFO''
     (s\<lparr>heap := (heap s)(r := (heap s r)\<lparr>status := ''running''\<rparr>),
        activeTasks := activeTasks s + 1,
        tasks := AList.update taskId r (tasks s)\<rparr>)"
  have pc: "processTask rnd taskId s = continue rnd r taskId (AtBatch 0) s2"
    using m by (simp add: processTask_def s2_def Let_def)
  have "acts_on r s s2"
    by (rule acts_on_update [where p' = "procs s r" and t' = "(heap s r)\<lparr>status := ''running''\<rparr>"])
       (simp_all add: s2_def q task_le_status terminal_def)
  then show ?thesis
    unfolding pc by (rule acts_on_trans [OF _ continue_acts_on])
qed

lemma processTaskQueue_evolves:
  assumes "evolves s0 s"
  shows "evolves s0 (processTaskQueue rnd s)"
proof (rule processTaskQueue_preserves [where P = "evolves s0", OF _ _ assms])
  fix s assume "evolves s0 s"
  then show "evolves s0 (s\<lparr>taskQueue := tl (taskQueue s)\<rparr>)"
    by (rule evolves_frame) simp_all
next
  fix rnd s taskId r
  assume e: "evolves s0 s" and m: "map_of (tasks s) taskId = Some r"
    and q: "status (heap s r) = ''queued''"
  have "evolves s (fst (processTask rnd taskId s))"
    by (rule acts_on_evolves [OF processTask_acts_on [OF m q]]) (simp add: frozen_def q)
  then show "evolves s0 (fst (processTask rnd taskId s))"
    by (rule evolves_trans [OF e])
qed

lemma then_queue_evolves: "evolves s0 (fst x) \<Longrightarrow> evolves s0 (then_queue rnd x)"
  by (cases x) (auto simp: then_queue_def processTaskQueue_evolves split: bool.splits)


lemma enqueue_task_evolves: "evolves s (enqueue_task rnd taskId task s)"
proof -
  define s7 where "s7 = (addLog taskId (TotalOperations (total task)) ''INFO''
     (addLog taskId (ConversationsCount (length (conversations task))) ''INFO''
     (addLog taskId (MessagesCount (length (messages task))) ''INFO''
     (addLog taskId (CookiesCount (length (cookies task))) ''INFO''
     (addLog taskId TaskCreatedAndQueued ''INFO''
       (s\<lparr>heap := (heap s)(nextRef s := task), nextRef := nextRef s + 1,
          tasks := AList.update taskId (nextRef s) (tasks s),
          logs := AList.update taskId [] (logs s)\<rparr>))))))
     \<lparr>taskQueue := taskQueue s @ [taskId]\<rparr>"
  have eq: "enqueue_task rnd taskId task s = processTaskQueue rnd s7"
    by (simp add: enqueue_task_def Let_def s7_def)
  have f: "heap s7 = (heap s)(nextRef s := task)" "nextRef s7 = Suc (nextRef s)"
    "procs s7 = procs s" "sent s7 = sent s"
    by (simp_all add: s7_def)
  have "evolves s s7"
    by (simp add: evolves_def f frozen_def senders_def)
  then show ?thesis
    unfolding eq by (rule processTaskQueue_evolves)
qed

lemma start_task_evolves: "evolves s (fst (start_task rnd now req s))"
proof -
  have "evolves s (s\<lparr>rngPos := k\<rparr>)" for k
    by (rule evolves_frame [OF evolves_refl]) simp_all
  moreover have "evolves s (enqueue_task rnd taskId task (s\<lparr>rngPos := k\<rparr>))" for taskId task k
    by (rule evolves_trans [OF _ enqueue_task_evolves]) (rule calculation)
  ultimately show ?thesis
    by (simp add: start_task_def Let_def split: prod.splits)
qed

lemma stop_same:
  "isStopped t \<Longrightarrow> status t = ''stopped'' \<Longrightarrow> t\<lparr>isStopped := True, status := ''stopped''\<rparr> = t"
  by (cases t) simp

lemma stop_update_evolves:
  assumes "heap s' = (heap s)(r := (heap s r)\<lparr>isStopped := True, status := ''stopped''\<rparr>)"
    and "nextRef s' = nextRef s" and "procs s' = procs s" and "sent s' = sent s"
  shows "evolves s s'"
proof (cases "frozen s r")
  case True
  then have "(heap s r)\<lparr>isStopped := True, status := ''stopped''\<rparr> = heap s r"
    by (intro stop_same) (simp_all add: frozen_def)
  then have "heap s' = heap s" using assms(1) by (simp add: fun_upd_idem)
  then show ?thesis
    using assms by (intro evolves_frame [OF evolves_refl]) simp_all
next
  case False
  have "acts_on r s s'"
    by (rule acts_on_update [where p' = "procs s r" and
          t' = "(heap s r)\<lparr>isStopped := True, status := ''stopped''\<rparr>"])
       (simp_all add: assms task_le_stop)
  then show ?thesis using False by (rule acts_on_evolves)
qed

lemma stop_task_evolves: "evolves s (fst (stop_task taskId s))"
proof (cases "map_of (tasks s) taskId")
  case None
  then show ?thesis by (simp add: stop_task_def)
next
  case (Some r)
  show ?thesis
    by (rule stop_update_evolves [where r = r]) (simp_all add: stop_task_def Some Let_def)
qed

lemma stop_all_entry_evolves: "evolves s (fst (stop_all_entry e (s, n)))"
proof (cases e)
  case (Pair taskId r)
  show ?thesis
  proof (cases "status (heap s r) = ''running'' \<or> status (heap s r) = ''queued''")
    case False
    then show ?thesis using Pair by (simp add: stop_all_entry_def)
  next
    case True
    show ?thesis
      by (rule stop_update_evolves [where r = r]) (use True Pair in \<open>simp_all add: stop_all_entry_def\<close>)
  qed
qed

lemma fold_stop_all_entry_evolves:
  "evolves s0 s \<Longrightarrow> evolves s0 (fst (fold stop_all_entry es (s, n)))"
proof (induction es arbitrary: s n)
  case Nil
  then show ?case by simp
next
  case (Cons e es)
  obtain s1 n1 where st: "stop_all_entry e (s, n) = (s1, n1)"
    by (cases "stop_all_entry e (s, n)")
  have "evolves s s1" using stop_all_entry_evolves [of s e n] st by simp
  then have "evolves s0 s1" by (rule evolves_trans [OF Cons.prems])
  then have "evolves s0 (fst (fold stop_all_entry es (s1, n1)))" by (rule Cons.IH)
  then show ?case using st by simp
qed

lemma stop_all_tasks_evolves: "evolves s (fst (stop_all_tasks s))"
proof -
  have "evolves s (fst (fold stop_all_entry (tasks s) (s, 0)))"
    by (rule fold_stop_all_entry_evolves) simp
  then have "evolves s ((fst (fold stop_all_entry (tasks s) (s, 0)))\<lparr>taskQueue := [], activeTasks := 0\<rparr>)"
    by (rule evolves_frame) simp_all
  then show ?thesis
    by (simp add: stop_all_tasks_def case_prod_beta Let_def)
qed

lemma cleanup_entry_frame:
  "heap (cleanup_entry c e s) = heap s \<and> nextRef (cleanup_entry c e s) = nextRef s \<and>
   procs (cleanup_entry c e s) = procs s \<and> sent (cleanup_entry c e s) = sent s \<and>
   taskQueue (cleanup_entry c e s) = taskQueue s \<and> activeTasks (cleanup_entry c e s) = activeTasks s"
  by (cases e) (simp add: cleanup_entry_def)

lemma fold_cleanup_entry_frame:
  "heap (fold (cleanup_entry c) es s) = heap s \<and> nextRef (fold (cleanup_entry c) es s) = nextRef s \<and>
   procs (fold (cleanup_entry c) es s) = procs s \<and> sent (fold (cleanup_entry c) es s) = sent s \<and>
   taskQueue (fold (cleanup_entry c) es s) = taskQueue s \<and>
   activeTasks (fold (cleanup_entry c) es s) = activeTasks s"
  by (induction es arbitrary: s) (simp_all add: cleanup_entry_frame)

lemma cleanup_evolves: "evolves s (cleanup now s)"
  by (rule evolves_frame [OF evolves_refl]) (simp_all add: cleanup_def fold_cleanup_entry_frame)

lemma delivery_log_evolves: "evolves s (delivery_log r text type s)"
  by (rule evolves_frame [OF evolves_refl])
     (simp_all add: delivery_log_def split: option.splits prod.splits pc.splits)


lemma suspend_acts_on: "acts_on r s (s\<lparr>procs := (procs s)(r \<mapsto> x)\<rparr>)"
  by (rule acts_on_update [where t' = "heap s r"]) simp_all

lemma send_settled_evolves: "evolves s (send_settled rnd r out s)"
proof (cases "procs s r")
  case None
  then show ?thesis by (simp add: send_settled_def)
next
  case (Some x)
  obtain taskId q where x: "x = (taskId, q)" by (cases x)
  have nf: "\<not> frozen s r" using Some by (simp add: frozen_def)
  show ?thesis
  proof (cases q)
    case (AwaitSend b c cs ms)
    show ?thesis
    proof (cases out)
      case Threw
      have "acts_on r s (finally_block r taskId (catch_block r taskId (resume r s)))"
        by (rule acts_on_trans [OF resume_acts_on acts_on_trans [OF catch_block_acts_on finally_block_acts_on]])
      then have "evolves s (finally_block r taskId (catch_block r taskId (resume r s)))"
        using nf by (rule acts_on_evolves)
      then show ?thesis
        using Some x AwaitSend Threw by (simp add: send_settled_def processTaskQueue_evolves)
    next
      case (Returned ok)
      define s1 where "s1 = count_result r taskId ok (resume r s)"
      have a1: "acts_on r s s1"
        unfolding s1_def by (rule acts_on_trans [OF resume_acts_on count_result_acts_on])
      have eq: "send_settled rnd r out s =
        (if completed (heap s1 r) < total (heap s1 r) \<and> \<not> isStopped (heap s1 r)
         then s1\<lparr>procs := (procs s1)(r \<mapsto> (taskId, AwaitTimeDelay b c cs ms))\<rparr>
         else then_queue rnd (continue rnd r taskId (AtMsg b c cs ms) s1))"
        using Some x AwaitSend Returned
        by (simp add: send_settled_def s1_def Let_def)
      have "evolves s (s1\<lparr>procs := (procs s1)(r \<mapsto> (taskId, AwaitTimeDelay b c cs ms))\<rparr>)"
        by (rule acts_on_evolves [OF acts_on_trans [OF a1 suspend_acts_on] nf])
      moreover have "evolves s (fst (continue rnd r taskId (AtMsg b c cs ms) s1))"
        by (rule acts_on_evolves [OF acts_on_trans [OF a1 continue_acts_on] nf])
      then have "evolves s (then_queue rnd (continue rnd r taskId (AtMsg b c cs ms) s1))"
        by (rule then_queue_evolves)
      ultimately show ?thesis unfolding eq by simp
    qed
  next
    case (AwaitTimeDelay b c cs ms)
    then show ?thesis using Some x by (simp add: send_settled_def)
  next
    case (AwaitBatchDelay b)
    then show ?thesis using Some x by (simp add: send_settled_def)
  qed
qed

lemma timer_fired_evolves: "evolves s (timer_fired rnd r s)"
proof (cases "procs s r")
  case None
  then show ?thesis by (simp add: timer_fired_def)
next
  case (Some x)
  obtain taskId q where x: "x = (taskId, q)" by (cases x)
  have nf: "\<not> frozen s r" using Some by (simp add: frozen_def)
  have c: "evolves s (then_queue rnd (continue rnd r taskId l (resume r s)))" for l
    by (rule then_queue_evolves [OF acts_on_evolves [OF acts_on_trans [OF resume_acts_on continue_acts_on] nf]])
  show ?thesis
    using Some x c by (cases q) (simp_all add: timer_fired_def)
qed

lemma step_evolves: "evolves s (step rnd e s)"
  by (cases e)
     (simp_all add: start_task_evolves stop_task_evolves stop_all_tasks_evolves
        send_settled_evolves timer_fired_evolves delivery_log_evolves cleanup_evolves)

lemma fold_step_evolves: "evolves s0 s \<Longrightarrow> evolves s0 (fold (step rnd) es s)"
proof (induction es arbitrary: s)
  case Nil
  then show ?case by simp
next
  case (Cons e es)
  have "evolves s0 (step rnd e s)"
    by (rule evolves_trans [OF Cons.prems step_evolves])
  then show ?case by (simp add: Cons.IH)
qed

lemma run_events_evolves: "evolves s (run_events rnd es s)"
  unfolding run_events_def by (rule fold_step_evolves [OF evolves_refl])

section \<open>Single steps and the example states\<close>

lemma processTaskQueue_untouched:
  assumes "status (heap s r) \<noteq> ''queued''"
  shows "heap (processTaskQueue rnd s) r = heap s r \<and> procs (processTaskQueue rnd s) r = procs s r"
proof (rule processTaskQueue_preserves
    [where P = "\<lambda>s'. heap s' r = heap s r \<and> procs s' r = procs s r"])
  fix rnd and s' :: state and taskId r'
  assume a: "heap s' r = heap s r \<and> procs s' r = procs s r"
    and m: "map_of (tasks s') taskId = Some r'" and q: "status (heap s' r') = ''queued''"
  have "r \<noteq> r'" using a q assms by auto
  then show "heap (fst (processTask rnd taskId s')) r = heap s r \<and>
        procs (fst (processTask rnd taskId s')) r = procs s r"
    using processTask_acts_on [OF m q, of rnd] a by (simp add: acts_on_def)
qed simp_all


lemma send_settled_threw:
  assumes "procs s r = Some (taskId, AwaitSend b c cs ms)"
  shows "status (heap (send_settled rnd r Threw s) r) = ''error''"
proof -
  define s1 where "s1 = finally_block r taskId (catch_block r taskId (resume r s))"
  have e: "status (heap s1 r) = ''error''"
    by (simp add: s1_def finally_block_def catch_block_def resume_def)
  have "send_settled rnd r Threw s = processTaskQueue rnd s1"
    using assms by (simp add: send_settled_def s1_def)
  then show ?thesis
    using processTaskQueue_untouched [of s1 r rnd] e by simp
qed

lemma run_last:
  assumes "batch_count t = b + 1"
  shows "run rnd t taskId r (AtMsg b c [] []) s = (s, None)"
  using assms by simp

lemma send_settled_finishes:
  assumes p: "procs s r = Some (taskId, AwaitSend b c [] [])"
    and bc: "batch_count (heap s r) = b + 1" and ns: "\<not> isStopped (heap s r)"
    and le: "total (heap s r) \<le> completed (heap s r) + 1" and q: "taskQueue s = []"
  shows "heap (send_settled rnd r (Returned ok) s) r = (count_task ok (heap s r))\<lparr>status := ''completed''\<rparr>"
    and "procs (send_settled rnd r (Returned ok) s) r = None"
    and "tasks (send_settled rnd r (Returned ok) s) = AList.update taskId r (tasks s)"
    and "activeTasks (send_settled rnd r (Returned ok) s) = activeTasks s - 1"
    and "taskQueue (send_settled rnd r (Returned ok) s) = []"
    and "nextRef (send_settled rnd r (Returned ok) s) = nextRef s"
proof -
  define s1 where "s1 = count_result r taskId ok (resume r s)"
  have h1: "heap s1 r = count_task ok (heap s r)"
    by (simp add: s1_def count_result_def resume_def)
  have nlt: "\<not> (completed (heap s1 r) < total (heap s1 r) \<and> \<not> isStopped (heap s1 r))"
    using le by (simp add: h1)
  have run: "run rnd (heap s1 r) taskId r (AtMsg b c [] []) s1 = (s1, None)"
    by (rule run_last) (simp add: h1 bc)
  define s2 where "s2 = finally_block r taskId (finalize r taskId s1)"
  have c: "continue rnd r taskId (AtMsg b c [] []) s1 = (s2, True)"
    by (simp only: continue_def run prod.case option.case s2_def)
  have q2: "taskQueue s2 = []"
    using q by (simp add: s2_def finally_block_def finalize_def Let_def s1_def count_result_def resume_def)
  have idle: "processTaskQueue rnd s2 = s2"
    by (rule processTaskQueue_idle) (simp add: q2)
  have "send_settled rnd r (Returned ok) s =
        (if completed (heap s1 r) < total (heap s1 r) \<and> \<not> isStopped (heap s1 r)
         then s1\<lparr>procs := (procs s1)(r \<mapsto> (taskId, AwaitTimeDelay b c [] []))\<rparr>
         else then_queue rnd (continue rnd r taskId (AtMsg b c [] []) s1))"
    using p by (simp add: send_settled_def s1_def Let_def)
  then have eq: "send_settled rnd r (Returned ok) s = s2"
    unfolding if_not_P [OF nlt] c by (simp add: then_queue_def idle)
  have ns1: "\<not> isStopped (heap s1 r)" using ns by (simp add: h1)
  show "heap (send_settled rnd r (Returned ok) s) r = (count_task ok (heap s r))\<lparr>status := ''completed''\<rparr>"
    unfolding eq using ns1 by (simp add: s2_def finally_block_def finalize_def Let_def h1)
  show "procs (send_settled rnd r (Returned ok) s) r = None"
    unfolding eq by (simp add: s2_def finally_block_def finalize_def Let_def s1_def count_result_def resume_def)
  show "tasks (send_settled rnd r (Returned ok) s) = AList.update taskId r (tasks s)"
    unfolding eq by (simp add: s2_def finally_block_def finalize_def Let_def s1_def count_result_def resume_def)
  show "activeTasks (send_settled rnd r (Returned ok) s) = activeTasks s - 1"
    unfolding eq by (simp add: s2_def finally_block_def finalize_def Let_def s1_def count_result_def resume_def)
  show "taskQueue (send_settled rnd r (Returned ok) s) = []"
    unfolding eq by (rule q2)
  show "nextRef (send_settled rnd r (Returned ok) s) = nextRef s"
    unfolding eq by (simp add: s2_def finally_block_def finalize_def Let_def s1_def count_result_def resume_def)
qed


lemma continue_tasks:
  "map_of (tasks (fst (continue rnd r taskId l s))) = map_of (tasks s) \<or>
   map_of (tasks (fst (continue rnd r taskId l s))) = (map_of (tasks s))(taskId \<mapsto> r)"
proof (cases "run rnd (heap s r) taskId r l s")
  case (Pair s1 res)
  have "tasks s1 = tasks s"
    using run_frame [of rnd "heap s r" taskId r l s] Pair by simp
  then show ?thesis
    using Pair
    by (cases res) (simp_all add: continue_def finally_block_def finalize_def Let_def update_conv')
qed

lemma processTask_tasks:
  assumes "map_of (tasks s) taskId = Some r"
  shows "map_of (tasks (fst (processTask rnd taskId s))) = map_of (tasks s)"
proof -
  define s2 where "s2 = addLog taskId TaskStartedProcessing ''INFO''
     (s\<lparr>heap := (heap s)(r := (heap s r)\<lparr>status := ''running''\<rparr>),
        activeTasks := activeTasks s + 1,
        tasks := AList.update taskId r (tasks s)\<rparr>)"
  have pc: "processTask rnd taskId s = continue rnd r taskId (AtBatch 0) s2"
    using assms by (simp add: processTask_def s2_def Let_def)
  have m: "map_of (tasks s2) = map_of (tasks s)"
    using assms by (simp add: s2_def update_conv' map_upd_triv)
  then have "(map_of (tasks s2))(taskId \<mapsto> r) = map_of (tasks s)"
    using assms by (simp add: map_upd_triv)
  then show ?thesis
    unfolding pc using continue_tasks [of rnd r taskId "AtBatch 0" s2] m by auto
qed

lemma processTaskQueue_tasks: "map_of (tasks (processTaskQueue rnd s)) = map_of (tasks s)"
  by (rule processTaskQueue_preserves [where P = "\<lambda>s'. map_of (tasks s') = map_of (tasks s)"])
     (simp_all add: processTask_tasks)

lemma start_task_admitted:
  fixes rnd :: rng and s s' :: state and now :: int and taskId :: string
  assumes v: "trim (req_cookies req) \<noteq> []" "trim (req_messages req) \<noteq> []"
      "trim (req_conversation_id req) \<noteq> []" "parseCookies (req_cookies req) \<noteq> []"
    and ms: "nonempty_lines (req_messages req) = m # ms"
    and cs: "nonempty_lines (req_conversation_id req) = c # cs"
    and q: "taskQueue s = []" and a: "activeTasks s < MAX_CONCURRENT_TASKS"
    and u: "length (filter (\<lambda>(k, r). user_id (heap s r) = req_user_id req \<and> status (heap s r) = ''running'')
           (tasks s)) < MAX_TASKS_PER_USER"
  defines "taskId \<equiv> fst (generateTaskId rnd (rngPos s))"
  defines "s' \<equiv> fst (start_task rnd now req s)"
  shows "heap s' = (heap s)(nextRef s := (new_task taskId now req)\<lparr>status := ''running''\<rparr>)"
    and "nextRef s' = Suc (nextRef s)"
    and "tasks s' = AList.update taskId (nextRef s) (tasks s)"
    and "taskQueue s' = []"
    and "activeTasks s' = activeTasks s + 1"
    and "procs s' = (procs s)(nextRef s \<mapsto> (taskId, AwaitSend 0 c cs ms))"
    and "snd (start_task rnd now req s) =
           Started taskId (total (new_task taskId now req)) (batch_count (new_task taskId now req))
             (batch_delay (new_task taskId now req)) (time_delay (new_task taskId now req)) 0"
proof -
  define task where "task = new_task taskId now req"
  define s0 where "s0 = s\<lparr>rngPos := Suc (rngPos s)\<rparr>"
  have st: "start_task rnd now req s =
     (enqueue_task rnd taskId task s0,
      Started taskId (total task) (batch_count task) (batch_delay task) (time_delay task)
        (length (taskQueue (enqueue_task rnd taskId task s0))))"
    using start_task_accepted [of req s rnd now] v u ms cs
    by (simp add: Let_def taskId_def task_def s0_def)
  have h: "taskQueue s0 = []" "activeTasks s0 < MAX_CONCURRENT_TASKS"
    "status task = ''queued''" "\<not> isStopped task" "0 < batch_count task"
    "conversations task = c # cs" "messages task = m # ms"
    using q a ms cs by (simp_all add: s0_def task_def new_task_def Let_def)
  note e = enqueue_task_admitted [OF h, of rnd taskId]
  show "heap s' = (heap s)(nextRef s := (new_task taskId now req)\<lparr>status := ''running''\<rparr>)"
    by (simp add: s'_def st e) (simp add: s0_def task_def)
  show "nextRef s' = Suc (nextRef s)" by (simp add: s'_def st e) (simp add: s0_def)
  show "tasks s' = AList.update taskId (nextRef s) (tasks s)"
    by (simp add: s'_def st e) (simp add: s0_def)
  show "taskQueue s' = []" by (simp add: s'_def st e)
  show "activeTasks s' = activeTasks s + 1" by (simp add: s'_def st e) (simp add: s0_def)
  show "procs s' = (procs s)(nextRef s \<mapsto> (taskId, AwaitSend 0 c cs ms))"
    by (simp add: s'_def st e) (simp add: s0_def)
  show "snd (start_task rnd now req s) =
           Started taskId (total (new_task taskId now req)) (batch_count (new_task taskId now req))
             (batch_delay (new_task taskId now req)) (time_delay (new_task taskId now req)) 0"
    by (simp add: st e) (simp add: task_def)
qed

lemma generateTaskId_half: "generateTaskId draws_half k = (''h4rsh_5500'', Suc k)"
  by (simp add: generateTaskId_def random_def frac_def draws_half_def)

lemma request_one_parsed:
  "trim (req_cookies request_one) \<noteq> []" "trim (req_messages request_one) \<noteq> []"
  "trim (req_conversation_id request_one) \<noteq> []"
  "parseCookies (req_cookies request_one) \<noteq> []"
  "nonempty_lines (req_messages request_one) = [js ''m'']"
  "nonempty_lines (req_conversation_id request_one) = [js ''c'']"
  by (simp_all add: request_one_def parseCookies_def parse_cookie_line_def nonempty_lines_def
      split_on_def trim_def is_ws_def js_def starts_with_def List.map_filter_def)



lemma init_admits:
  "taskQueue init = []" "activeTasks init < MAX_CONCURRENT_TASKS"
  "length (filter (\<lambda>(k, r). user_id (heap init r) = u \<and> status (heap init r) = ''running'')
           (tasks init)) < MAX_TASKS_PER_USER"
  "nextRef init = 0" "tasks init = []"
  by (simp_all add: init_def MAX_CONCURRENT_TASKS_def MAX_TASKS_PER_USER_def)

lemma one_running_fields:
  "heap one_running 0 = (new_task ''h4rsh_5500'' 0 request_one)\<lparr>status := ''running''\<rparr>"
  "nextRef one_running = 1"
  "tasks one_running = [(''h4rsh_5500'', 0)]"
  "taskQueue one_running = []"
  "activeTasks one_running = 1"
  "procs one_running 0 = Some (''h4rsh_5500'', AwaitSend 0 (js ''c'') [] [])"
proof -
  have o: "one_running = fst (start_task draws_half 0 request_one init)"
    by (simp add: one_running_def run_events_def)
  note s = start_task_admitted [OF request_one_parsed init_admits(1-3), of draws_half 0,
      folded o, unfolded generateTaskId_half fst_conv]
  show "heap one_running 0 = (new_task ''h4rsh_5500'' 0 request_one)\<lparr>status := ''running''\<rparr>"
    by (simp add: s init_admits)
  show "nextRef one_running = 1" by (simp add: s init_admits)
  show "tasks one_running = [(''h4rsh_5500'', 0)]" by (simp add: s init_admits)
  show "taskQueue one_running = []" by (simp add: s)
  show "activeTasks one_running = 1" by (simp add: s) (simp add: init_def)
  show "procs one_running 0 = Some (''h4rsh_5500'', AwaitSend 0 (js ''c'') [] [])"
    by (simp add: s init_admits)
qed

lemma new_task_one:
  "total (new_task taskId now request_one) = 1"
  "batch_count (new_task taskId now request_one) = 1"
  "batch_delay (new_task taskId now request_one) = 5"
  "time_delay (new_task taskId now request_one) = 10"
  "completed (new_task taskId now request_one) = 0"
  "user_id (new_task taskId now request_one) = js ''u''"
  by (simp_all add: new_task_def Let_def request_one_parsed)
     (simp_all add: request_one_def parsed_or_def)


section \<open>The log and status queries\<close>

text \<open>
  C10. Asking for the logs of a task identifier that the log store does not have gives a
  successful response with no lines, while asking for the status of an identifier that
  the registry does not have gives the failure 404, "Task not found".
\<close>

theorem logs_of_unknown_task:
  assumes "map_of (logs s) taskId = None" and "map_of (tasks s) taskId = None"
  shows "get_logs taskId s = LogLines [] \<and> get_task taskId s = Failure 404 ''Task not found''"
  using assms by (simp add: get_logs_def get_task_def)

theorem logs_of_unknown_task_witness:
  "map_of (logs init) ''h4rsh_1234'' = None \<and> map_of (tasks init) ''h4rsh_1234'' = None \<and>
   get_logs ''h4rsh_1234'' init = LogLines [] \<and>
   get_task ''h4rsh_1234'' init = Failure 404 ''Task not found''"
  using logs_of_unknown_task [of init "''h4rsh_1234''"] by (simp add: init_def)

section \<open>The values of the status field\<close>

text \<open>
  C6 (as amended). In every state that a run of the server reaches, the status of every
  task object is one of the five strings queued, running, completed, stopped and error.
  When the awaited send of a task is rejected, so that the catch block of the execution
  loop runs, the status of the task is error afterwards.
\<close>

theorem task_status_values:
  "(r < nextRef (run_events rnd es init) \<longrightarrow>
      status (heap (run_events rnd es init) r)
        \<in> {''queued'', ''running'', ''completed'', ''stopped'', ''error''}) \<and>
   (procs s r = Some (taskId, AwaitSend b c cs ms) \<longrightarrow>
      status (heap (send_settled rnd r Threw s) r) = ''error'')"
proof (intro conjI impI)
  assume "r < nextRef (run_events rnd es init)"
  then have "task_inv (heap (run_events rnd es init) r) (procs (run_events rnd es init) r)"
    by (rule inv_task [OF run_events_inv])
  then show "status (heap (run_events rnd es init) r)
        \<in> {''queued'', ''running'', ''completed'', ''stopped'', ''error''}"
    by (simp add: task_inv_def)
next
  assume "procs s r = Some (taskId, AwaitSend b c cs ms)"
  then show "status (heap (send_settled rnd r Threw s) r) = ''error''"
    by (rule send_settled_threw)
qed

theorem task_status_values_witness:
  "0 < nextRef (run_events draws_half [StartTask 0 request_one] init) \<and>
   status (heap (run_events draws_half [StartTask 0 request_one] init) 0)
        \<in> {''queued'', ''running'', ''completed'', ''stopped'', ''error''} \<and>
   procs one_running 0 = Some (''h4rsh_5500'', AwaitSend 0 (js ''c'') [] []) \<and>
   status (heap (send_settled draws_half 0 Threw one_running) 0) = ''error''"
  using task_status_values [of 0 draws_half "[StartTask 0 request_one]" one_running
      "''h4rsh_5500''" 0 "js ''c''" "[]" "[]"]
    one_running_fields
  by (simp add: one_running_def [symmetric])

text \<open>
  C6 as stated fails: after one request and a rejected send the status of the task is the
  string error, which is none of queued, running, completed, stopped and failed.
\<close>

theorem status_error_reached:
  "status (heap (run_events draws_half [StartTask 0 request_one, SendSettled 0 Threw] init) 0)
     \<notin> {''queued'', ''running'', ''completed'', ''stopped'', ''failed''}"
proof -
  have "run_events draws_half [StartTask 0 request_one, SendSettled 0 Threw] init
      = send_settled draws_half 0 Threw one_running"
    by (simp add: run_events_def one_running_def)
  then show ?thesis
    using send_settled_threw [OF one_running_fields(6), of draws_half] by simp
qed

section \<open>The total and the counters of a task\<close>

lemma completed_le_total:
  assumes "task_inv t p"
  shows "0 \<le> completed t \<and> completed t \<le> total t"
proof -
  have "task_inv t None" using assms by (rule task_inv_weaken)
  then show ?thesis by (simp add: task_inv_def)
qed



text \<open>
  C4. In every state that a run of the server reaches, every task object has
  \<open>completed = success + failed\<close> and \<open>0 \<le> completed \<le> total\<close>, and no event makes any of the
  three counters smaller.
\<close>

theorem counters_invariant:
  assumes "r < nextRef (run_events rnd es init)"
  shows "completed (heap (run_events rnd es init) r)
           = success (heap (run_events rnd es init) r) + failed (heap (run_events rnd es init) r) \<and>
         0 \<le> completed (heap (run_events rnd es init) r) \<and>
         completed (heap (run_events rnd es init) r) \<le> total (heap (run_events rnd es init) r) \<and>
         completed (heap (run_events rnd es init) r)
           \<le> completed (heap (step rnd e (run_events rnd es init)) r) \<and>
         success (heap (run_events rnd es init) r)
           \<le> success (heap (step rnd e (run_events rnd es init)) r) \<and>
         failed (heap (run_events rnd es init) r)
           \<le> failed (heap (step rnd e (run_events rnd es init)) r)"
proof -
  define s where "s = run_events rnd es init"
  have t: "task_inv (heap s r) (procs s r)"
    using assms unfolding s_def by (rule inv_task [OF run_events_inv])
  then have a: "completed (heap s r) = success (heap s r) + failed (heap s r)"
    by (simp add: task_inv_def)
  note b = completed_le_total [OF t]
  have "evolves s (step rnd e s)" by (rule step_evolves)
  then have "task_le (heap s r) (heap (step rnd e s) r)"
    using assms by (simp add: evolves_def s_def)
  then have c: "completed (heap s r) \<le> completed (heap (step rnd e s) r)"
      "success (heap s r) \<le> success (heap (step rnd e s) r)"
      "failed (heap s r) \<le> failed (heap (step rnd e s) r)"
    by (simp_all add: task_le_def)
  show ?thesis using a b c unfolding s_def by blast
qed

theorem counters_invariant_witness:
  "0 < nextRef (run_events draws_half [StartTask 0 request_one] init) \<and>
   completed (heap (run_events draws_half [StartTask 0 request_one] init) 0)
     = success (heap (run_events draws_half [StartTask 0 request_one] init) 0)
       + failed (heap (run_events draws_half [StartTask 0 request_one] init) 0) \<and>
   completed (heap (run_events draws_half [StartTask 0 request_one] init) 0)
     \<le> total (heap (run_events draws_half [StartTask 0 request_one] init) 0) \<and>
   completed (heap (run_events draws_half [StartTask 0 request_one] init) 0)
     \<le> completed (heap (step draws_half (SendSettled 0 (Returned False))
           (run_events draws_half [StartTask 0 request_one] init)) 0)"
  using counters_invariant [of 0 draws_half "[StartTask 0 request_one]" "SendSettled 0 (Returned False)"]
    one_running_fields(2)
  by (simp add: one_running_def [symmetric])

section \<open>Task identifiers\<close>

lemma start_task_Started:
  assumes "snd (start_task rnd now req s) = Started taskId tot bc bd td pos"
  shows "taskId = fst (generateTaskId rnd (rngPos s))"
    and "\<exists>k. fst (start_task rnd now req s) = enqueue_task rnd taskId (new_task taskId now req) (s\<lparr>rngPos := k\<rparr>)"
  using assms
  by (auto simp: start_task_def Let_def case_prod_beta split: if_splits)

lemma enqueue_task_tasks:
  "map_of (tasks (enqueue_task rnd taskId task s)) = (map_of (tasks s))(taskId \<mapsto> nextRef s)"
  by (simp add: enqueue_task_def Let_def processTaskQueue_tasks update_conv')

lemma processTaskQueue_nextRef: "nextRef (processTaskQueue rnd s) = nextRef s"
proof (rule processTaskQueue_preserves [where P = "\<lambda>s'. nextRef s' = nextRef s"])
  fix rnd and s' :: state and taskId r
  assume "nextRef s' = nextRef s" and "map_of (tasks s') taskId = Some r"
    and "status (heap s' r) = ''queued''"
  then show "nextRef (fst (processTask rnd taskId s')) = nextRef s"
    using processTask_acts_on [of s' taskId r rnd] by (simp add: acts_on_def)
qed simp_all

lemma enqueue_task_nextRef: "nextRef (enqueue_task rnd taskId task s) = Suc (nextRef s)"
  by (simp add: enqueue_task_def Let_def processTaskQueue_nextRef)

lemma generateTaskId_number:
  "\<exists>n. 1000 \<le> n \<and> n \<le> 9999 \<and> fst (generateTaskId rnd k) = ''h4rsh_'' @ digits n \<and>
       \<bar>real n - (1000 + random rnd k * 9000)\<bar> < 1"
proof -
  define z where "z = \<lfloor>1000 + random rnd k * 9000\<rfloor>"
  have r: "1000 \<le> z" "z \<le> 9999" using floor_id_range [of rnd k] by (simp_all add: z_def)
  have "of_int z \<le> 1000 + random rnd k * 9000" "1000 + random rnd k * 9000 < of_int z + 1"
    unfolding z_def by linarith+
  moreover have "real (nat z) = of_int z" using r by simp
  ultimately have "\<bar>real (nat z) - (1000 + random rnd k * 9000)\<bar> < 1" by linarith
  moreover have "fst (generateTaskId rnd k) = ''h4rsh_'' @ digits (nat z)"
    by (simp add: generateTaskId_def z_def Let_def del: digits.simps)
  moreover have "1000 \<le> nat z" "nat z \<le> 9999" using r by simp_all
  ultimately show ?thesis by blast
qed

lemma start_one_response:
  "snd (start_task draws_half 0 request_one init) = Started ''h4rsh_5500'' 1 1 5 10 0"
  using start_task_admitted(7) [OF request_one_parsed init_admits(1-3), of draws_half 0]
  by (simp add: generateTaskId_half new_task_one)

text \<open>
  C9 (as amended). A request that is accepted gets the identifier that \<open>generateTaskId\<close>
  makes from the next random draw \<open>x\<close>, without looking at the registry: \<open>h4rsh_\<close> and the
  digits of a number from 1000 to 9999 that is less than 1 away from \<open>1000 + 9000 x\<close> (the
  program takes the floor; in the exact arithmetic of the model and in floating point the
  result is within this distance). A new task object, the task built from the request with
  the status that the queue processor has given it, is stored in the registry under this
  identifier, whether or not the registry had an entry for it; no earlier entry leads to
  the new object, and the entries for all other identifiers are left as they were.
\<close>

theorem submitted_task_id:
  assumes "snd (start_task rnd now req s) = Started taskId tot bc bd td pos" and "server_inv s"
  shows "(\<exists>n. 1000 \<le> n \<and> n \<le> 9999 \<and> taskId = ''h4rsh_'' @ digits n \<and>
              \<bar>real n - (1000 + random rnd (rngPos s) * 9000)\<bar> < 1) \<and>
         nextRef (fst (start_task rnd now req s)) = Suc (nextRef s) \<and>
         map_of (tasks (fst (start_task rnd now req s))) taskId = Some (nextRef s) \<and>
         (heap (fst (start_task rnd now req s)) (nextRef s))\<lparr>status := ''queued''\<rparr>
           = new_task taskId now req \<and>
         (\<forall>k. k \<noteq> taskId \<longrightarrow>
            map_of (tasks (fst (start_task rnd now req s))) k = map_of (tasks s) k) \<and>
         (\<forall>k. map_of (tasks s) k \<noteq> Some (nextRef s))"
proof -
  obtain k where e: "fst (start_task rnd now req s)
      = enqueue_task rnd taskId (new_task taskId now req) (s\<lparr>rngPos := k\<rparr>)"
    using start_task_Started(2) [OF assms(1)] by blast
  have m: "map_of (tasks (fst (start_task rnd now req s))) = (map_of (tasks s))(taskId \<mapsto> nextRef s)"
    by (simp add: e enqueue_task_tasks)
  have n: "nextRef (fst (start_task rnd now req s)) = Suc (nextRef s)"
    by (simp add: e enqueue_task_nextRef)
  obtain st where "heap (fst (start_task rnd now req s)) (nextRef s) = (new_task taskId now req)\<lparr>status := st\<rparr>"
    using enqueue_task_heap [of rnd taskId "new_task taskId now req" "s\<lparr>rngPos := k\<rparr>"]
    by (auto simp: e)
  then have h: "(heap (fst (start_task rnd now req s)) (nextRef s))\<lparr>status := ''queued''\<rparr>
           = new_task taskId now req"
    by (simp add: new_task_def Let_def)
  have f: "map_of (tasks s) k \<noteq> Some (nextRef s)" for k
    using map_of_ref_bound [OF assms(2), of k "nextRef s"] by auto
  have "taskId = fst (generateTaskId rnd (rngPos s))"
    by (rule start_task_Started(1) [OF assms(1)])
  then have g: "\<exists>n. 1000 \<le> n \<and> n \<le> 9999 \<and> taskId = ''h4rsh_'' @ digits n \<and>
              \<bar>real n - (1000 + random rnd (rngPos s) * 9000)\<bar> < 1"
    using generateTaskId_number [of rnd "rngPos s"] by simp
  show ?thesis using g n m h f by simp
qed

theorem submitted_task_id_witness:
  "snd (start_task draws_half 0 request_one init) = Started ''h4rsh_5500'' 1 1 5 10 0 \<and>
   server_inv init \<and>
   nextRef (fst (start_task draws_half 0 request_one init)) = Suc (nextRef init) \<and>
   map_of (tasks (fst (start_task draws_half 0 request_one init))) ''h4rsh_5500'' = Some (nextRef init) \<and>
   (heap (fst (start_task draws_half 0 request_one init)) (nextRef init))\<lparr>status := ''queued''\<rparr>
     = new_task ''h4rsh_5500'' 0 request_one \<and>
   ''h4rsh_1234'' \<noteq> ''h4rsh_5500'' \<and>
   map_of (tasks (fst (start_task draws_half 0 request_one init))) ''h4rsh_1234''
     = map_of (tasks init) ''h4rsh_1234''"
  using submitted_task_id [OF start_one_response init_inv] start_one_response init_inv
  by simp

text \<open>
  C9 as stated fails: two requests whose draws are equal get the same identifier, and the
  entry of the first task is overwritten with the second task.
\<close>

theorem same_identifier_twice:
  "snd (start_task draws_half 0 request_one init) = Started ''h4rsh_5500'' 1 1 5 10 0 \<and>
   snd (start_task draws_half 1 request_one one_running) = Started ''h4rsh_5500'' 1 1 5 10 0 \<and>
   map_of (tasks one_running) ''h4rsh_5500'' = Some 0 \<and>
   map_of (tasks (fst (start_task draws_half 1 request_one one_running))) ''h4rsh_5500'' = Some 1"
proof -
  have u: "length (filter (\<lambda>(k, r). user_id (heap one_running r) = req_user_id request_one \<and>
              status (heap one_running r) = ''running'') (tasks one_running)) < MAX_TASKS_PER_USER"
    by (simp add: one_running_fields MAX_TASKS_PER_USER_def)
  have a: "activeTasks one_running < MAX_CONCURRENT_TASKS"
    by (simp add: one_running_fields MAX_CONCURRENT_TASKS_def)
  note s = start_task_admitted [OF request_one_parsed one_running_fields(4) a u, of draws_half 1,
      unfolded generateTaskId_half fst_conv]
  have "snd (start_task draws_half 1 request_one one_running) = Started ''h4rsh_5500'' 1 1 5 10 0"
    using s(7) by (simp add: new_task_one)
  moreover have "map_of (tasks (fst (start_task draws_half 1 request_one one_running))) ''h4rsh_5500'' = Some 1"
    by (simp add: s(3) one_running_fields)
  moreover have "map_of (tasks one_running) ''h4rsh_5500'' = Some 0"
    by (simp add: one_running_fields)
  ultimately show ?thesis using start_one_response by simp
qed

section \<open>Stopping a task\<close>

lemma stop_task_found:
  assumes "map_of (tasks s) taskId = Some r"
  shows "snd (stop_task taskId s) = StoppedOne taskId"
    and "heap (fst (stop_task taskId s)) = (heap s)(r := (heap s r)\<lparr>isStopped := True, status := ''stopped''\<rparr>)"
    and "tasks (fst (stop_task taskId s)) = AList.update taskId r (tasks s)"
    and "taskQueue (fst (stop_task taskId s)) = remove1 taskId (taskQueue s)"
    and "procs (fst (stop_task taskId s)) = procs s"
    and "sent (fst (stop_task taskId s)) = sent s"
    and "nextRef (fst (stop_task taskId s)) = nextRef s"
    and "activeTasks (fst (stop_task taskId s)) = activeTasks s"
  using assms by (simp_all add: stop_task_def Let_def)

lemma one_completed_fields:
  "status (heap one_completed 0) = ''completed''"
  "tasks one_completed = [(''h4rsh_5500'', 0)]"
  "nextRef one_completed = 1"
proof -
  have o: "one_completed = send_settled draws_half 0 (Returned True) one_running"
    by (simp add: one_completed_def run_events_def one_running_def)
  note f = send_settled_finishes [OF one_running_fields(6), of draws_half True, folded o]
  have h: "batch_count (heap one_running 0) = 0 + 1" "\<not> isStopped (heap one_running 0)"
    "total (heap one_running 0) \<le> completed (heap one_running 0) + 1"
    by (simp_all add: one_running_fields new_task_one)
  note g = f [OF h one_running_fields(4)]
  show "status (heap one_completed 0) = ''completed''" by (simp add: g)
  show "tasks one_completed = [(''h4rsh_5500'', 0)]" by (simp add: g one_running_fields)
  show "nextRef one_completed = 1" by (simp add: g one_running_fields)
qed

text \<open>
  What \<open>stop\<close> does to a task that the registry has: it answers with success and leaves the
  task stopped; a second call changes neither the task objects nor the registry. And no
  event takes a task object from one of the status values completed, stopped and error to
  a status outside them.
\<close>

theorem stop_task_idempotent:
  "(map_of (tasks s) taskId = Some r \<longrightarrow>
      snd (stop_task taskId s) = StoppedOne taskId \<and>
      status (heap (fst (stop_task taskId s)) r) = ''stopped'' \<and>
      isStopped (heap (fst (stop_task taskId s)) r) \<and>
      snd (stop_task taskId (fst (stop_task taskId s))) = StoppedOne taskId \<and>
      heap (fst (stop_task taskId (fst (stop_task taskId s)))) = heap (fst (stop_task taskId s)) \<and>
      tasks (fst (stop_task taskId (fst (stop_task taskId s)))) = tasks (fst (stop_task taskId s))) \<and>
   (r < nextRef s \<and> terminal (status (heap s r)) \<longrightarrow> terminal (status (heap (step rnd e s) r)))"
proof (intro conjI impI)
  assume m: "map_of (tasks s) taskId = Some r"
  define s1 where "s1 = fst (stop_task taskId s)"
  note a = stop_task_found [OF m, folded s1_def]
  have m1: "map_of (tasks s1) taskId = Some r"
    by (simp add: a update_conv')
  note b = stop_task_found [OF m1]
  show "snd (stop_task taskId s) = StoppedOne taskId" by (rule a(1))
  show "status (heap s1 r) = ''stopped''" by (simp add: a)
  show "isStopped (heap s1 r)" by (simp add: a)
  show "snd (stop_task taskId s1) = StoppedOne taskId" by (rule b(1))
  have "(heap s1 r)\<lparr>isStopped := True, status := ''stopped''\<rparr> = heap s1 r"
    by (rule stop_same) (simp_all add: a)
  then show "heap (fst (stop_task taskId s1)) = heap s1"
    by (simp add: b fun_upd_idem)
  show "tasks (fst (stop_task taskId s1)) = tasks s1"
    by (simp add: b a)
next
  assume "r < nextRef s \<and> terminal (status (heap s r))"
  moreover have "evolves s (step rnd e s)" by (rule step_evolves)
  ultimately show "terminal (status (heap (step rnd e s) r))"
    by (simp add: evolves_def task_le_def)
qed

theorem stop_task_idempotent_witness:
  "map_of (tasks one_completed) ''h4rsh_5500'' = Some 0 \<and>
   snd (stop_task ''h4rsh_5500'' one_completed) = StoppedOne ''h4rsh_5500'' \<and>
   status (heap (fst (stop_task ''h4rsh_5500'' one_completed)) 0) = ''stopped'' \<and>
   heap (fst (stop_task ''h4rsh_5500'' (fst (stop_task ''h4rsh_5500'' one_completed))))
     = heap (fst (stop_task ''h4rsh_5500'' one_completed)) \<and>
   0 < nextRef one_completed \<and> terminal (status (heap one_completed 0)) \<and>
   terminal (status (heap (step draws_half (StopTask ''h4rsh_5500'') one_completed) 0))"
  using stop_task_idempotent [of one_completed "''h4rsh_5500''" 0 draws_half "StopTask ''h4rsh_5500''"]
  by (simp add: one_completed_fields terminal_def)

text \<open>
  C3. The part of the claim on completed tasks fails on the code: \<open>stop\<close> on a task whose
  status is completed sets the status to stopped.
\<close>

theorem stop_changes_completed_task:
  "status (heap one_completed 0) = ''completed'' \<and>
   status (heap (fst (stop_task ''h4rsh_5500'' one_completed)) 0) = ''stopped''"
proof -
  have m: "map_of (tasks one_completed) ''h4rsh_5500'' = Some 0"
    by (simp add: one_completed_fields)
  show ?thesis
    by (simp add: one_completed_fields stop_task_found(2) [OF m])
qed

section \<open>A task whose sends all fail runs to completion\<close>














section \<open>The ceiling on running tasks\<close>

lemma digits_nonempty: "digits n \<noteq> []"
  by (subst digits.simps) simp

lemma digit_chars_inj:
  assumes "''0123456789'' ! a = ''0123456789'' ! b" and "a < 10" and "b < 10"
  shows "a = b"
proof -
  have "distinct ''0123456789''" by simp
  then show ?thesis using assms by (simp add: nth_eq_iff_index_eq)
qed

lemma digits_inj: "digits n = digits m \<Longrightarrow> n = m"
proof (induction n arbitrary: m rule: digits.induct)
  case (1 n)
  show ?case
  proof (cases "n < 10")
    case True
    have n: "digits n = [''0123456789'' ! n]" using True by (subst digits.simps) simp
    have m: "m < 10"
    proof (rule ccontr)
      assume "\<not> m < 10"
      then have "digits m = digits (m div 10) @ [''0123456789'' ! (m mod 10)]"
        by (subst digits.simps) simp
      then show False using "1.prems" n digits_nonempty [of "m div 10"] by simp
    qed
    then have "digits m = [''0123456789'' ! m]" by (subst digits.simps) simp
    then show ?thesis using "1.prems" n True m digit_chars_inj by simp
  next
    case False
    have n: "digits n = digits (n div 10) @ [''0123456789'' ! (n mod 10)]"
      using False by (subst digits.simps) simp
    have m: "\<not> m < 10"
    proof
      assume "m < 10"
      then have "digits m = [''0123456789'' ! m]" by (subst digits.simps) simp
      then show False using "1.prems" n digits_nonempty [of "n div 10"] by simp
    qed
    then have dm: "digits m = digits (m div 10) @ [''0123456789'' ! (m mod 10)]"
      by (subst digits.simps) simp
    from "1.prems" n dm have e: "digits (n div 10) = digits (m div 10)"
      and c: "''0123456789'' ! (n mod 10) = ''0123456789'' ! (m mod 10)"
      by simp_all
    have "n div 10 = m div 10" using "1.IH" [OF False e] .
    moreover have "n mod 10 = m mod 10" using c by (rule digit_chars_inj) simp_all
    ultimately show ?thesis by (metis div_mult_mod_eq)
  qed
qed

lemma rising_id_inj: "rising_id i = rising_id j \<Longrightarrow> i = j"
  using digits_inj [of "5500 + 2 * i" "5500 + 2 * j"] by (simp add: rising_id_def)

lemma random_rising:
  assumes "k < 9000"
  shows "random draws_rising k = 1 / 2 + real k / 18000"
proof -
  have "0 \<le> draws_rising k" "draws_rising k < 1"
    using assms by (simp_all add: draws_rising_def)
  then show ?thesis by (simp add: random_def frac_eq draws_rising_def)
qed

lemma generateTaskId_rising:
  assumes "j < 2000"
  shows "generateTaskId draws_rising (4 * j) = (rising_id j, Suc (4 * j))"
proof -
  have "random draws_rising (4 * j) = 1 / 2 + real (4 * j) / 18000"
    using assms by (intro random_rising) simp
  then have "1000 + random draws_rising (4 * j) * 9000 = of_int (5500 + 2 * int j)"
    by simp
  then have "\<lfloor>1000 + random draws_rising (4 * j) * 9000\<rfloor> = 5500 + 2 * int j"
    by (simp only: floor_of_int)
  then show ?thesis
    by (simp add: generateTaskId_def rising_id_def nat_add_distrib nat_mult_distrib)
qed

lemma enhanceMessage_rising:
  assumes "k < 8000"
  shows "snd (enhanceMessage draws_rising k (js ''m'')) = k + 3"
proof -
  have "random draws_rising k = 1 / 2 + real k / 18000"
    "random draws_rising (Suc (Suc k)) = 1 / 2 + real (Suc (Suc k)) / 18000"
    using assms by (simp_all only: random_rising)
  moreover have "0 \<le> real k / 18000" "0 \<le> real (Suc (Suc k)) / 18000" by simp_all
  ultimately have "\<not> random draws_rising k < 4 / 10"
    "\<not> random draws_rising (Suc (Suc k)) < 4 / 10"
    by linarith+
  then show ?thesis
    by (simp add: enhanceMessage_def maybe_emoji_def trim_def is_ws_def js_def split_ws_def
        Let_def case_prod_beta)
qed


lemma run_stopped_state: "isStopped t \<Longrightarrow> run rnd t taskId r l s = (s, None)"
  by (induction rnd t taskId r l s rule: run.induct) (simp_all add: Let_def case_prod_beta)

lemma send_settled_stopped:
  assumes p: "procs s r = Some (taskId, AwaitSend b c cs ms)"
    and st: "isStopped (heap s r)" and q: "taskQueue s = []"
  shows "heap (send_settled rnd r (Returned ok) s)
           = (heap s)(r := (count_task ok (heap s r))\<lparr>status := ''stopped''\<rparr>)"
    and "tasks (send_settled rnd r (Returned ok) s) = AList.update taskId r (tasks s)"
    and "activeTasks (send_settled rnd r (Returned ok) s) = activeTasks s - 1"
    and "taskQueue (send_settled rnd r (Returned ok) s) = []"
    and "nextRef (send_settled rnd r (Returned ok) s) = nextRef s"
    and "rngPos (send_settled rnd r (Returned ok) s) = rngPos s"
proof -
  define s1 where "s1 = count_result r taskId ok (resume r s)"
  have h1: "heap s1 = (heap s)(r := count_task ok (heap s r))"
    by (simp add: s1_def count_result_def resume_def)
  have st1: "isStopped (heap s1 r)"
    using st by (simp add: h1 count_task_def Let_def)
  have nlt: "\<not> (completed (heap s1 r) < total (heap s1 r) \<and> \<not> isStopped (heap s1 r))"
    using st1 by simp
  have run: "run rnd (heap s1 r) taskId r (AtMsg b c cs ms) s1 = (s1, None)"
    using st1 by (rule run_stopped_state)
  define s2 where "s2 = finally_block r taskId (finalize r taskId s1)"
  have c: "continue rnd r taskId (AtMsg b c cs ms) s1 = (s2, True)"
    by (simp only: continue_def run prod.case option.case s2_def)
  have q2: "taskQueue s2 = []"
    using q by (simp add: s2_def finally_block_def finalize_def Let_def s1_def count_result_def
        resume_def addLog_def)
  have idle: "processTaskQueue rnd s2 = s2"
    by (rule processTaskQueue_idle) (simp add: q2)
  have "send_settled rnd r (Returned ok) s =
        (if completed (heap s1 r) < total (heap s1 r) \<and> \<not> isStopped (heap s1 r)
         then s1\<lparr>procs := (procs s1)(r \<mapsto> (taskId, AwaitTimeDelay b c cs ms))\<rparr>
         else then_queue rnd (continue rnd r taskId (AtMsg b c cs ms) s1))"
    using p by (simp add: send_settled_def s1_def Let_def)
  then have eq: "send_settled rnd r (Returned ok) s = s2"
    unfolding if_not_P [OF nlt] c by (simp add: then_queue_def idle)
  have f: "finalize r taskId s1 =
      addLog taskId TaskStopped ''WARNING'' (s1\<lparr>heap := (heap s1)(r := (heap s1 r)\<lparr>status := ''stopped''\<rparr>)\<rparr>)"
    using st1 by (simp add: finalize_def Let_def)
  have f1: "tasks s1 = AList.update taskId r (tasks s)" "activeTasks s1 = activeTasks s"
    "nextRef s1 = nextRef s" "rngPos s1 = rngPos s"
    by (simp_all add: s1_def count_result_def resume_def)
  show "heap (send_settled rnd r (Returned ok) s)
           = (heap s)(r := (count_task ok (heap s r))\<lparr>status := ''stopped''\<rparr>)"
    unfolding eq by (simp add: s2_def finally_block_def f addLog_def Let_def h1)
  show "tasks (send_settled rnd r (Returned ok) s) = AList.update taskId r (tasks s)"
    unfolding eq by (simp add: s2_def finally_block_def f addLog_def Let_def f1)
  show "activeTasks (send_settled rnd r (Returned ok) s) = activeTasks s - 1"
    unfolding eq by (simp add: s2_def finally_block_def f addLog_def Let_def f1)
  show "taskQueue (send_settled rnd r (Returned ok) s) = []"
    unfolding eq by (rule q2)
  show "nextRef (send_settled rnd r (Returned ok) s) = nextRef s"
    unfolding eq by (simp add: s2_def finally_block_def f addLog_def Let_def f1)
  show "rngPos (send_settled rnd r (Returned ok) s) = rngPos s"
    unfolding eq by (simp add: s2_def finally_block_def f addLog_def Let_def f1)
qed

lemma start_task_admitted_draws:
  fixes rnd :: rng and s :: state and now :: int
  assumes v: "trim (req_cookies req) \<noteq> []" "trim (req_messages req) \<noteq> []"
      "trim (req_conversation_id req) \<noteq> []" "parseCookies (req_cookies req) \<noteq> []"
    and ms: "nonempty_lines (req_messages req) = m # ms"
    and cs: "nonempty_lines (req_conversation_id req) = c # cs"
    and q: "taskQueue s = []" and a: "activeTasks s < MAX_CONCURRENT_TASKS"
    and u: "length (filter (\<lambda>(k, r). user_id (heap s r) = req_user_id req \<and> status (heap s r) = ''running'')
           (tasks s)) < MAX_TASKS_PER_USER"
  shows "rngPos (fst (start_task rnd now req s)) = snd (enhanceMessage rnd (Suc (rngPos s)) m)"
proof -
  define taskId where "taskId = fst (generateTaskId rnd (rngPos s))"
  define task where "task = new_task taskId now req"
  define s0 where "s0 = s\<lparr>rngPos := Suc (rngPos s)\<rparr>"
  have st: "start_task rnd now req s =
     (enqueue_task rnd taskId task s0,
      Started taskId (total task) (batch_count task) (batch_delay task) (time_delay task)
        (length (taskQueue (enqueue_task rnd taskId task s0))))"
    using start_task_accepted [of req s rnd now] v u ms cs
    by (simp add: Let_def taskId_def task_def s0_def)
  have h: "taskQueue s0 = []" "activeTasks s0 < MAX_CONCURRENT_TASKS"
    "status task = ''queued''" "\<not> isStopped task" "0 < batch_count task"
    "conversations task = c # cs" "messages task = m # ms"
    using q a ms cs by (simp_all add: s0_def task_def new_task_def Let_def)
  note e = enqueue_task_admitted [OF h, of rnd taskId]
  show ?thesis by (simp add: st e) (simp add: s0_def)
qed

lemma request_of_parsed:
  "trim (req_cookies (request_of n)) \<noteq> []" "trim (req_messages (request_of n)) \<noteq> []"
  "trim (req_conversation_id (request_of n)) \<noteq> []"
  "parseCookies (req_cookies (request_of n)) \<noteq> []"
  "nonempty_lines (req_messages (request_of n)) = [js ''m'']"
  "nonempty_lines (req_conversation_id (request_of n)) = [js ''c'']"
  by (simp_all add: request_of_def request_one_parsed)

lemma new_task_of:
  "user_id (new_task taskId now (request_of n)) = replicate (Suc n) 0x75"
  by (simp add: new_task_def Let_def request_of_def)


lemma update_fresh: "k \<notin> fst ` set al \<Longrightarrow> AList.update k v al = al @ [(k, v)]"
  by (induction al) auto

lemma stop_all_one_running:
  assumes t: "tasks s = [(taskId, r)]" and st: "status (heap s r) = ''running''"
  shows "heap (fst (stop_all_tasks s)) = (heap s)(r := (heap s r)\<lparr>isStopped := True, status := ''stopped''\<rparr>)"
    and "tasks (fst (stop_all_tasks s)) = [(taskId, r)]"
    and "taskQueue (fst (stop_all_tasks s)) = []"
    and "activeTasks (fst (stop_all_tasks s)) = 0"
    and "procs (fst (stop_all_tasks s)) = procs s"
    and "nextRef (fst (stop_all_tasks s)) = nextRef s"
    and "rngPos (fst (stop_all_tasks s)) = rngPos s"
  using assms by (simp_all add: stop_all_tasks_def stop_all_entry_def addLog_def Let_def)

lemma first_start_rising:
  fixes s :: state
  defines "s \<equiv> fst (start_task draws_rising 0 (request_of 0) init)"
  shows "heap s 0 = (new_task (rising_id 0) 0 (request_of 0))\<lparr>status := ''running''\<rparr>"
    and "nextRef s = 1" and "tasks s = [(rising_id 0, 0)]" and "taskQueue s = []"
    and "activeTasks s = 1"
    and "procs s 0 = Some (rising_id 0, AwaitSend 0 (js ''c'') [] [])"
    and "rngPos s = 4"
proof -
  have g: "fst (generateTaskId draws_rising (rngPos init)) = rising_id 0"
    using generateTaskId_rising [of 0] by (simp add: init_def)
  note a = start_task_admitted [OF request_of_parsed init_admits(1-3), of draws_rising 0 0,
      folded s_def, unfolded g]
  show "heap s 0 = (new_task (rising_id 0) 0 (request_of 0))\<lparr>status := ''running''\<rparr>"
    by (simp add: a init_admits)
  show "nextRef s = 1" by (simp add: a init_admits)
  show "tasks s = [(rising_id 0, 0)]" by (simp add: a init_admits)
  show "taskQueue s = []" by (rule a)
  show "activeTasks s = 1" by (simp add: a) (simp add: init_def)
  show "procs s 0 = Some (rising_id 0, AwaitSend 0 (js ''c'') [] [])"
    by (simp add: a init_admits)
  have "rngPos s = snd (enhanceMessage draws_rising (Suc (rngPos init)) (js ''m''))"
    unfolding s_def
    by (rule start_task_admitted_draws [OF request_of_parsed init_admits(1-3)])
  then show "rngPos s = 4"
    using enhanceMessage_rising [of 1] by (simp add: init_def)
qed

lemma admitted_first:
  "admitted 0 (run_events draws_rising
     [StartTask 0 (request_of 0), StopAllTasks, SendSettled 0 (Returned False)] init)"
proof -
  define sA where "sA = fst (start_task draws_rising 0 (request_of 0) init)"
  define sB where "sB = fst (stop_all_tasks sA)"
  define sC where "sC = send_settled draws_rising 0 (Returned False) sB"
  note a = first_start_rising [folded sA_def]
  have ra: "status (heap sA 0) = ''running''" by (simp add: a)
  note b = stop_all_one_running [OF a(3) ra, folded sB_def]
  have pb: "procs sB 0 = Some (rising_id 0, AwaitSend 0 (js ''c'') [] [])"
    and ib: "isStopped (heap sB 0)"
    by (simp_all add: b a)
  note c = send_settled_stopped [OF pb ib b(3), of draws_rising False, folded sC_def]
  have e: "run_events draws_rising
     [StartTask 0 (request_of 0), StopAllTasks, SendSettled 0 (Returned False)] init = sC"
    by (simp add: run_events_def sC_def sB_def sA_def)
  have u: "user_id (heap sC 0) = replicate (Suc 0) 0x75"
    by (simp add: c b a count_task_def Let_def new_task_of)
  have "nextRef sC = Suc 0" by (simp add: c b a)
  moreover have "taskQueue sC = []" by (rule c)
  moreover have "activeTasks sC = int 0 - 1" by (simp add: c b)
  moreover have "rngPos sC = 4 * Suc 0" by (simp add: c b a)
  moreover have "tasks sC = map (\<lambda>j. (rising_id j, j)) [0..<Suc 0]" by (simp add: c b)
  moreover have "status (heap sC 0) = ''stopped''" by (simp add: c)
  ultimately show ?thesis
    unfolding e admitted_def using u by simp
qed

lemma admitted_new_user:
  assumes a: "admitted k s" and n: "k < n"
  shows "length (filter (\<lambda>(i, r). user_id (heap s r) = req_user_id (request_of n) \<and>
            status (heap s r) = ''running'') (tasks s)) < MAX_TASKS_PER_USER"
proof -
  have t: "tasks s = map (\<lambda>j. (rising_id j, j)) [0..<Suc k]"
    and us: "\<And>j. j \<le> k \<Longrightarrow> user_id (heap s j) = replicate (Suc j) 0x75"
    using a by (simp_all add: admitted_def)
  have "\<And>j. j < Suc k \<Longrightarrow> user_id (heap s j) \<noteq> req_user_id (request_of n)"
  proof -
    fix j assume "j < Suc k"
    then have "user_id (heap s j) = replicate (Suc j) 0x75" "Suc j \<noteq> Suc n"
      using us [of j] n by simp_all
    then have "length (user_id (heap s j)) \<noteq> length (req_user_id (request_of n))"
      by (simp add: request_of_def)
    then show "user_id (heap s j) \<noteq> req_user_id (request_of n)" by auto
  qed
  then have "filter (\<lambda>(i, r). user_id (heap s r) = req_user_id (request_of n) \<and>
            status (heap s r) = ''running'') (tasks s) = []"
    by (simp add: t filter_empty_conv)
  then show ?thesis by (simp add: MAX_TASKS_PER_USER_def)
qed

lemma admitted_start:
  assumes a: "admitted k s" and k: "k \<le> 40"
  shows "admitted (Suc k) (fst (start_task draws_rising 0 (request_of (Suc k)) s))"
proof -
  define s' where "s' = fst (start_task draws_rising 0 (request_of (Suc k)) s)"
  have f: "nextRef s = Suc k" "taskQueue s = []" "activeTasks s = int k - 1"
    "rngPos s = 4 * Suc k" "tasks s = map (\<lambda>j. (rising_id j, j)) [0..<Suc k]"
    "status (heap s 0) = ''stopped''"
    and us: "\<And>j. j \<le> k \<Longrightarrow> user_id (heap s j) = replicate (Suc j) 0x75"
    and rs: "\<And>j. 1 \<le> j \<Longrightarrow> j \<le> k \<Longrightarrow> status (heap s j) = ''running''"
    using a by (simp_all add: admitted_def)
  have act: "activeTasks s < MAX_CONCURRENT_TASKS"
    using k by (simp add: f MAX_CONCURRENT_TASKS_def)
  have u: "length (filter (\<lambda>(i, r). user_id (heap s r) = req_user_id (request_of (Suc k)) \<and>
            status (heap s r) = ''running'') (tasks s)) < MAX_TASKS_PER_USER"
    using a by (rule admitted_new_user) simp
  have g: "fst (generateTaskId draws_rising (rngPos s)) = rising_id (Suc k)"
    using generateTaskId_rising [of "Suc k"] k by (simp add: f)
  note n = start_task_admitted [OF request_of_parsed f(2) act u, of draws_rising 0,
      folded s'_def, unfolded g]
  have fresh: "rising_id (Suc k) \<notin> fst ` set (tasks s)"
  proof
    assume "rising_id (Suc k) \<in> fst ` set (tasks s)"
    then have "rising_id (Suc k) \<in> rising_id ` set [0..<Suc k]"
      by (simp only: f set_map image_image fst_conv)
    then obtain j where j: "j \<in> set [0..<Suc k]" "rising_id (Suc k) = rising_id j"
      by (rule imageE)
    from j(2) have "Suc k = j" by (rule rising_id_inj)
    then show False using j(1) by simp
  qed
  have "rngPos s' = snd (enhanceMessage draws_rising (Suc (rngPos s)) (js ''m''))"
    unfolding s'_def
    by (rule start_task_admitted_draws [OF request_of_parsed f(2) act u])
  then have r: "rngPos s' = 4 * Suc (Suc k)"
    using enhanceMessage_rising [of "Suc (4 * Suc k)"] k by (simp add: f)
  have t: "tasks s' = map (\<lambda>j. (rising_id j, j)) [0..<Suc (Suc k)]"
    using update_fresh [OF fresh, of "Suc k"] by (simp add: n f)
  have h: "heap s' = (heap s)(Suc k := (new_task (rising_id (Suc k)) 0 (request_of (Suc k)))\<lparr>status := ''running''\<rparr>)"
    by (simp add: n f)
  have "nextRef s' = Suc (Suc k)" by (simp add: n f)
  moreover have "taskQueue s' = []" by (rule n)
  moreover have "activeTasks s' = int (Suc k) - 1" by (simp add: n f)
  moreover have "status (heap s' 0) = ''stopped''" by (simp add: h f)
  moreover have "\<forall>j\<le>Suc k. user_id (heap s' j) = replicate (Suc j) 0x75"
    using us by (simp add: h new_task_of le_Suc_eq)
  moreover have "\<forall>j. 1 \<le> j \<and> j \<le> Suc k \<longrightarrow> status (heap s' j) = ''running''"
    using rs by (simp add: h le_Suc_eq)
  ultimately show ?thesis
    unfolding s'_def [symmetric] admitted_def using r t by simp
qed

lemma admitted_more_starts:
  assumes "admitted 0 s" and "n \<le> 41"
  shows "admitted n (fold (step draws_rising) (more_starts n) s)"
  using assms(2)
proof (induction n)
  case 0
  show ?case using assms(1) by (simp add: more_starts_def)
next
  case (Suc n)
  have "more_starts (Suc n) = more_starts n @ [StartTask 0 (request_of (Suc n))]"
    by (simp add: more_starts_def)
  then show ?case
    using admitted_start [of n "fold (step draws_rising) (more_starts n) s"] Suc by simp
qed

lemma admitted_overload: "admitted 41 (run_events draws_rising overload init)"
  using admitted_more_starts [OF admitted_first, of 41]
  by (simp add: run_events_def overload_def)

lemma admitted_runningTasks:
  assumes "admitted k s"
  shows "runningTasks s = k"
proof -
  have f: "tasks s = map (\<lambda>j. (rising_id j, j)) [0..<Suc k]"
    "status (heap s 0) = ''stopped''"
    and rs: "\<And>j. 1 \<le> j \<Longrightarrow> j \<le> k \<Longrightarrow> status (heap s j) = ''running''"
    using assms by (simp_all add: admitted_def)
  have "runningTasks s = length (filter (\<lambda>j. status (heap s j) = ''running'') [0..<Suc k])"
    by (simp add: runningTasks_def f filter_map comp_def)
  also have "[0..<Suc k] = 0 # [1..<Suc k]" by (simp add: upt_conv_Cons)
  also have "filter (\<lambda>j. status (heap s j) = ''running'') (0 # [1..<Suc k]) = [1..<Suc k]"
    using rs by (simp add: f)
  finally show ?thesis by simp
qed

text \<open>
  C2 fails on the code. After a task was stopped by \<open>/api/stop-all-tasks\<close>, which sets
  \<open>activeTasks\<close> to 0, and its pending send has settled, so that the \<open>finally\<close> block of
  \<open>processTask\<close> has taken \<open>activeTasks\<close> down to -1, 41 requests are admitted one after the
  other: 41 tasks of the map \<open>tasks\<close> have the status running, one more than
  \<open>MAX_CONCURRENT_TASKS\<close>.
\<close>

theorem ceiling_exceeded:
  "runningTasks (run_events draws_rising overload init) = 41 \<and>
   MAX_CONCURRENT_TASKS < int (runningTasks (run_events draws_rising overload init))"
proof -
  have "runningTasks (run_events draws_rising overload init) = 41"
    using admitted_overload by (rule admitted_runningTasks)
  then show ?thesis by (simp add: MAX_CONCURRENT_TASKS_def)
qed

section \<open>Stopping a task that waits in the queue\<close>

lemma start_task_waits:
  fixes rnd :: rng and s s' :: state and now :: int and taskId :: string
  assumes v: "trim (req_cookies req) \<noteq> []" "trim (req_messages req) \<noteq> []"
      "trim (req_conversation_id req) \<noteq> []" "parseCookies (req_cookies req) \<noteq> []"
    and ms: "nonempty_lines (req_messages req) = m # ms"
    and cs: "nonempty_lines (req_conversation_id req) = c # cs"
    and q: "taskQueue s = []" and a: "\<not> activeTasks s < MAX_CONCURRENT_TASKS"
    and u: "length (filter (\<lambda>(k, r). user_id (heap s r) = req_user_id req \<and> status (heap s r) = ''running'')
           (tasks s)) < MAX_TASKS_PER_USER"
  defines "taskId \<equiv> fst (generateTaskId rnd (rngPos s))"
  defines "s' \<equiv> fst (start_task rnd now req s)"
  shows "heap s' = (heap s)(nextRef s := new_task taskId now req)"
    and "nextRef s' = Suc (nextRef s)"
    and "tasks s' = AList.update taskId (nextRef s) (tasks s)"
    and "taskQueue s' = [taskId]"
proof -
  define task where "task = new_task taskId now req"
  define s0 where "s0 = s\<lparr>rngPos := Suc (rngPos s)\<rparr>"
  define s7 where "s7 = (addLog taskId (TotalOperations (total task)) ''INFO''
     (addLog taskId (ConversationsCount (length (conversations task))) ''INFO''
     (addLog taskId (MessagesCount (length (messages task))) ''INFO''
     (addLog taskId (CookiesCount (length (cookies task))) ''INFO''
     (addLog taskId TaskCreatedAndQueued ''INFO''
       (s0\<lparr>heap := (heap s0)(nextRef s0 := task), nextRef := nextRef s0 + 1,
          tasks := AList.update taskId (nextRef s0) (tasks s0),
          logs := AList.update taskId [] (logs s0)\<rparr>))))))
     \<lparr>taskQueue := taskQueue s0 @ [taskId]\<rparr>"
  have st: "s' = enqueue_task rnd taskId task s0"
    using start_task_accepted [of req s rnd now] v u ms cs
    by (simp add: Let_def taskId_def task_def s0_def s'_def)
  have eq: "enqueue_task rnd taskId task s0 = processTaskQueue rnd s7"
    by (simp add: enqueue_task_def Let_def s7_def)
  have f: "heap s7 = (heap s)(nextRef s := task)" "nextRef s7 = Suc (nextRef s)"
    "tasks s7 = AList.update taskId (nextRef s) (tasks s)"
    "taskQueue s7 = [taskId]" "activeTasks s7 = activeTasks s"
    using q by (simp_all add: s7_def s0_def)
  have "processTaskQueue rnd s7 = s7"
    by (rule processTaskQueue_idle) (simp add: f a)
  then have e: "s' = s7" by (simp add: st eq)
  show "heap s' = (heap s)(nextRef s := new_task taskId now req)"
    by (simp add: e f task_def)
  show "nextRef s' = Suc (nextRef s)" by (simp add: e f)
  show "tasks s' = AList.update taskId (nextRef s) (tasks s)" by (simp add: e f)
  show "taskQueue s' = [taskId]" by (simp add: e f)
qed

lemma one_waiting_fields:
  "map_of (tasks one_waiting) ''h4rsh_5584'' = Some 42"
  "status (heap one_waiting 42) = ''queued''"
  "taskQueue one_waiting = [''h4rsh_5584'']"
proof -
  define s where "s = run_events draws_rising overload init"
  have a: "admitted 41 s" unfolding s_def by (rule admitted_overload)
  have f: "nextRef s = 42" "taskQueue s = []" "activeTasks s = 40" "rngPos s = 4 * 42"
    using a by (simp_all add: admitted_def)
  have act: "\<not> activeTasks s < MAX_CONCURRENT_TASKS"
    by (simp add: f MAX_CONCURRENT_TASKS_def)
  have g: "fst (generateTaskId draws_rising (rngPos s)) = ''h4rsh_5584''"
    using generateTaskId_rising [of 42] by (simp add: f rising_id_def)
  have o: "one_waiting = fst (start_task draws_rising 0 (request_of 42) s)"
    by (simp add: one_waiting_def run_events_def s_def)
  note w = start_task_waits [OF request_of_parsed f(2) act admitted_new_user [OF a],
      of 42 draws_rising 0, folded o, unfolded g]
  show "map_of (tasks one_waiting) ''h4rsh_5584'' = Some 42"
    by (simp add: w f update_conv')
  show "status (heap one_waiting 42) = ''queued''"
    by (simp add: w f new_task_def Let_def)
  show "taskQueue one_waiting = [''h4rsh_5584'']"
    by (simp add: w)
qed

text \<open>
  C7. When \<open>stop\<close> is called on a task whose status is queued, the status becomes stopped
  at once and the first entry of the task in the queue is removed, which leaves none when
  the queue has no duplicates. Whatever events follow, the status stays stopped, so the
  task never runs, no call of \<open>processTask\<close> exists for it, and \<open>sendFacebookMessage\<close> is
  never called for it.
\<close>

theorem stop_queued_task:
  assumes i: "server_inv s" and m: "map_of (tasks s) taskId = Some r"
    and q: "status (heap s r) = ''queued''"
  shows "status (heap (fst (stop_task taskId s)) r) = ''stopped'' \<and>
         taskQueue (fst (stop_task taskId s)) = remove1 taskId (taskQueue s) \<and>
         (distinct (taskQueue s) \<longrightarrow> taskId \<notin> set (taskQueue (fst (stop_task taskId s)))) \<and>
         status (heap (run_events rnd es (fst (stop_task taskId s))) r) = ''stopped'' \<and>
         procs (run_events rnd es (fst (stop_task taskId s))) r = None \<and>
         r \<notin> senders (run_events rnd es (fst (stop_task taskId s)))"
proof -
  define s1 where "s1 = fst (stop_task taskId s)"
  note a = stop_task_found [OF m, folded s1_def]
  have r: "r < nextRef s" using i m by (rule map_of_ref_bound)
  have t: "task_inv (heap s r) (procs s r)" using i r by (rule inv_task)
  have p: "procs s r = None" using t q by (simp add: task_inv_def)
  have ns: "r \<notin> senders s" using i r q by (simp add: server_inv_def senders_def)
  have f: "frozen s1 r" by (simp add: frozen_def a p)
  have "evolves s1 (run_events rnd es s1)" by (rule run_events_evolves)
  then have e: "heap (run_events rnd es s1) r = heap s1 r \<and> procs (run_events rnd es s1) r = None \<and>
      (r \<in> senders (run_events rnd es s1) \<longrightarrow> r \<in> senders s1)"
    using f r by (simp add: evolves_def a)
  have "senders s1 = senders s" by (simp add: senders_def a)
  then show ?thesis
    using e ns a(4) unfolding s1_def [symmetric] by (simp add: a(2))
qed

theorem stop_queued_task_witness:
  "server_inv one_waiting \<and> map_of (tasks one_waiting) ''h4rsh_5584'' = Some 42 \<and>
   status (heap one_waiting 42) = ''queued'' \<and> distinct (taskQueue one_waiting) \<and>
   ''h4rsh_5584'' \<notin> set (taskQueue (fst (stop_task ''h4rsh_5584'' one_waiting))) \<and>
   status (heap (fst (stop_task ''h4rsh_5584'' one_waiting)) 42) = ''stopped'' \<and>
   taskQueue (fst (stop_task ''h4rsh_5584'' one_waiting)) = [] \<and>
   status (heap (run_events draws_rising [SendSettled 1 (Returned True)]
      (fst (stop_task ''h4rsh_5584'' one_waiting))) 42) = ''stopped'' \<and>
   42 \<notin> senders (run_events draws_rising [SendSettled 1 (Returned True)]
      (fst (stop_task ''h4rsh_5584'' one_waiting)))"
proof -
  have i: "server_inv one_waiting"
    unfolding one_waiting_def by (rule run_events_inv)
  show ?thesis
    using stop_queued_task [OF i one_waiting_fields(1,2), of draws_rising "[SendSettled 1 (Returned True)]"]
      i one_waiting_fields
    by simp
qed

end
